theory Spec2Isabelle
  imports Main "HOL-Library.Sublist" "HOL-Library.AList"
begin

section \<open>Errors thrown by the websocket transport\<close>

text \<open>
  \<^verbatim>\<open>responsesWebSocketConnection.ts\<close> distinguishes thrown values by their class
  (\<^verbatim>\<open>instanceof\<close>), by the \<^verbatim>\<open>code\<close> of a \<^verbatim>\<open>ResponsesWebSocketInternalError\<close>, and by
  the \<^verbatim>\<open>name\<close> and \<^verbatim>\<open>message\<close> of any other \<^verbatim>\<open>Error\<close>. A thrown value that is not an
  \<^verbatim>\<open>Error\<close> at all is \<open>NonErrorValue\<close>.
\<close>

datatype ResponsesWebSocketInternalErrorCode =
    connection_closed_before_opening
  | connection_closed_before_terminal_response_event
  | socket_not_open

datatype error_class =
    APIUserAbortError
  | ResponsesWebSocketInternalError ResponsesWebSocketInternalErrorCode
  | UserError
  | PlainError

datatype js_error =
    JsError (err_class: error_class) (err_name: string) (err_message: string) (err_cause: "js_error option")
  | NonErrorValue

text \<open>\<^verbatim>\<open>new ResponsesWebSocketInternalError(code, message)\<close>: the constructor sets the name.\<close>

definition newInternalError :: "ResponsesWebSocketInternalErrorCode \<Rightarrow> string \<Rightarrow> js_error" where
  "newInternalError code msg =
     JsError (ResponsesWebSocketInternalError code) ''ResponsesWebSocketInternalError'' msg None"

text \<open>\<^verbatim>\<open>new Error(message)\<close>.\<close>

definition newError :: "string \<Rightarrow> js_error" where
  "newError msg = JsError PlainError ''Error'' msg None"

section \<open>The connection: frame buffer and parked waiters\<close>

text \<open>
  \<^verbatim>\<open>ResponsesWebSocketConnection\<close> keeps the frames nobody has asked for yet in \<^verbatim>\<open>#messages\<close>
  and the callers blocked on the next frame in \<^verbatim>\<open>#waiters\<close>. A waiter is the pair of
  callbacks of a pending promise; the model names each waiter by a number and records in
  \<open>settled\<close> how its promise was settled. A frame is its text; \<open>None\<close> is the \<^verbatim>\<open>null\<close>
  that stands for "no more frames".
\<close>

datatype frame_outcome = Resolved "string option" | Rejected js_error

record ResponsesWebSocketConnection =
  messages :: "string list"
  waiters :: "nat list"
  closed :: bool
  error :: "js_error option"
  closedResolved :: bool
  settled :: "(nat \<times> frame_outcome) list"

definition newConnection :: ResponsesWebSocketConnection where
  "newConnection = \<lparr> messages = [], waiters = [], closed = False, error = None,
                      closedResolved = False, settled = [] \<rparr>"

text \<open>
  \<^verbatim>\<open>#nextFrameInternal\<close>: the buffer first, then the recorded error, then the closed flag;
  otherwise the caller \<open>w\<close> is parked and the promise stays pending (\<open>None\<close>).
\<close>

definition nextFrameInternal ::
  "ResponsesWebSocketConnection \<Rightarrow> nat \<Rightarrow> frame_outcome option \<times> ResponsesWebSocketConnection" where
  "nextFrameInternal c w =
     (case messages c of
        m # ms \<Rightarrow> (Some (Resolved (Some m)), c\<lparr>messages := ms\<rparr>)
      | [] \<Rightarrow>
          (case error c of
             Some e \<Rightarrow> (Some (Rejected e), c)
           | None \<Rightarrow>
               if closed c then (Some (Resolved None), c)
               else (None, c\<lparr>waiters := waiters c @ [w]\<rparr>)))"

text \<open>\<^verbatim>\<open>#onMessage\<close>: the oldest waiter takes the frame; with no waiter it is buffered.\<close>

definition onMessage :: "ResponsesWebSocketConnection \<Rightarrow> string \<Rightarrow> ResponsesWebSocketConnection" where
  "onMessage c d =
     (case waiters c of
        w # ws \<Rightarrow> c\<lparr>waiters := ws, settled := settled c @ [(w, Resolved (Some d))]\<rparr>
      | [] \<Rightarrow> c\<lparr>messages := messages c @ [d]\<rparr>)"

text \<open>
  \<^verbatim>\<open>#onError\<close>: the event carries an \<^verbatim>\<open>error\<close> that may be an \<^verbatim>\<open>Error\<close> and a \<^verbatim>\<open>message\<close>
  that may be a string.
\<close>

record error_event =
  ev_error :: "js_error option"
  ev_message :: "string option"

definition errorOfEvent :: "error_event \<Rightarrow> js_error" where
  "errorOfEvent ev =
     (case ev_error ev of
        Some (JsError k n m c) \<Rightarrow> JsError k n m c
      | _ \<Rightarrow>
          newError (case ev_message ev of
                      Some m \<Rightarrow> if length m > 0 then m else ''Responses websocket connection error.''
                    | None \<Rightarrow> ''Responses websocket connection error.''))"

definition onError :: "ResponsesWebSocketConnection \<Rightarrow> error_event \<Rightarrow> ResponsesWebSocketConnection" where
  "onError c ev =
     (let e = errorOfEvent ev in
      c\<lparr>error := Some e, waiters := [],
        settled := settled c @ map (\<lambda>w. (w, Rejected e)) (waiters c)\<rparr>)"

definition onClose :: "ResponsesWebSocketConnection \<Rightarrow> ResponsesWebSocketConnection" where
  "onClose c =
     c\<lparr>closed := True, closedResolved := True, waiters := [],
       settled := settled c @
         map (\<lambda>w. (w, case error c of Some e \<Rightarrow> Rejected e | None \<Rightarrow> Resolved None)) (waiters c)\<rparr>"

text \<open>Frames arriving one after the other, and \<open>n\<close> successive calls of \<^verbatim>\<open>#nextFrameInternal\<close>.\<close>

fun onMessages :: "ResponsesWebSocketConnection \<Rightarrow> string list \<Rightarrow> ResponsesWebSocketConnection" where
  "onMessages c [] = c"
| "onMessages c (d # ds) = onMessages (onMessage c d) ds"

fun readFrames :: "nat \<Rightarrow> nat \<Rightarrow> ResponsesWebSocketConnection \<Rightarrow> frame_outcome option list" where
  "readFrames 0 w c = []"
| "readFrames (Suc n) w c =
     (case nextFrameInternal c w of (r, c') \<Rightarrow> r # readFrames n (Suc w) c')"

section \<open>JavaScript values\<close>

text \<open>
  Header bags, query bags, provider data and request bodies are untyped JavaScript values.
  An object is the list of its own enumerable entries in \<^verbatim>\<open>Object.entries\<close> order. A number
  is carried by its \<^verbatim>\<open>String()\<close> rendering, a \<^verbatim>\<open>Date\<close> by its \<^verbatim>\<open>toISOString()\<close> and its
  \<^verbatim>\<open>String()\<close> rendering, and any other object that is not a plain mapping (a class
  instance) by its \<^verbatim>\<open>String()\<close> rendering and its own enumerable entries.
\<close>

datatype jsval =
    Undefined
  | Null
  | Bool bool
  | Num string
  | Str string
  | Arr "jsval list"
  | Obj "(string \<times> jsval) list"
  | DateV string string
  | Instance string "(string \<times> jsval) list"

fun joinComma :: "string list \<Rightarrow> string" where
  "joinComma [] = []"
| "joinComma [s] = s"
| "joinComma (s # t # ss) = s @ '','' @ joinComma (t # ss)"

text \<open>\<^verbatim>\<open>String(value)\<close>.\<close>

fun js_String :: "jsval \<Rightarrow> string" where
  "js_String Undefined = ''undefined''"
| "js_String Null = ''null''"
| "js_String (Bool b) = (if b then ''true'' else ''false'')"
| "js_String (Num s) = s"
| "js_String (Str s) = s"
| "js_String (Arr xs) =
     joinComma (map (\<lambda>x. if x = Undefined \<or> x = Null then [] else js_String x) xs)"
| "js_String (Obj es) = ''[object Object]''"
| "js_String (DateV isoString s) = s"
| "js_String (Instance s es) = s"

text \<open>\<^verbatim>\<open>String.prototype.toLowerCase\<close> on header names, which are ASCII.\<close>

definition toLowerChar :: "char \<Rightarrow> char" where
  "toLowerChar c =
     (case map_of (zip ''ABCDEFGHIJKLMNOPQRSTUVWXYZ'' ''abcdefghijklmnopqrstuvwxyz'') c of
        Some l \<Rightarrow> l | None \<Rightarrow> c)"

definition toLowerCase :: "string \<Rightarrow> string" where
  "toLowerCase s = map toLowerChar s"

text \<open>\<^verbatim>\<open>existingKey.startsWith(`${key}[`)\<close> and the test both deletion loops apply.\<close>

definition startsWith :: "string \<Rightarrow> string \<Rightarrow> bool" where
  "startsWith s p = prefix p s"

definition matchesQueryKey :: "string \<Rightarrow> string \<Rightarrow> bool" where
  "matchesQueryKey key existingKey =
     (existingKey = key \<or> startsWith existingKey (key @ ''[''))"

section \<open>Header layers (responsesTransportUtils.ts)\<close>

text \<open>
  What \<^verbatim>\<open>parseHeaderInput\<close> can be handed: a falsy value, a \<^verbatim>\<open>Headers\<close> instance (its
  entries as \<^verbatim>\<open>forEach\<close> yields them), an object whose \<^verbatim>\<open>values\<close> is a \<^verbatim>\<open>Headers\<close> instance
  (with \<^verbatim>\<open>nulls\<close> the members of a \<^verbatim>\<open>Set\<close>, or \<open>None\<close> when it is not a \<^verbatim>\<open>Set\<close>), an array,
  any other object, or a truthy primitive.
\<close>

datatype header_input =
    FalsyHeaders
  | HeadersInstance "(string \<times> string) list"
  | NullableHeadersLike "(string \<times> string) list" "jsval list option"
  | HeaderArray "jsval list"
  | HeaderRecord "(string \<times> jsval) list"
  | TruthyPrimitive

record ParsedHeaderInput =
  entries :: "(string \<times> string) list"
  unsetLowercaseNames :: "string list"

fun parseHeaderInput :: "header_input \<Rightarrow> ParsedHeaderInput" where
  "parseHeaderInput FalsyHeaders = \<lparr> entries = [], unsetLowercaseNames = [] \<rparr>"
| "parseHeaderInput (HeadersInstance hs) = \<lparr> entries = hs, unsetLowercaseNames = [] \<rparr>"
| "parseHeaderInput (NullableHeadersLike hs nulls) =
     \<lparr> entries = hs,
       unsetLowercaseNames =
         (case nulls of
            None \<Rightarrow> []
          | Some ns \<Rightarrow> concat (map (\<lambda>n. case n of Str s \<Rightarrow> [toLowerCase s] | _ \<Rightarrow> []) ns)) \<rparr>"
| "parseHeaderInput (HeaderArray es) =
     \<lparr> entries =
         concat (map (\<lambda>entry.
           case entry of
             Arr (key # v # rest) \<Rightarrow>
               if key = Undefined \<or> v = Null \<or> v = Undefined then []
               else [(js_String key, js_String v)]
           | _ \<Rightarrow> []) es),
       unsetLowercaseNames = [] \<rparr>"
| "parseHeaderInput (HeaderRecord kvs) =
     \<lparr> entries =
         concat (map (\<lambda>(key, v).
           if v = Undefined \<or> v = Null then [] else [(key, js_String v)]) kvs),
       unsetLowercaseNames =
         concat (map (\<lambda>(key, v). if v = Null then [toLowerCase key] else []) kvs) \<rparr>"
| "parseHeaderInput TruthyPrimitive = \<lparr> entries = [], unsetLowercaseNames = [] \<rparr>"

text \<open>
  \<^verbatim>\<open>HeaderAccumulator\<close>: a \<^verbatim>\<open>Set\<close> of blocked lower-case names and a \<^verbatim>\<open>Map\<close> from the
  lower-case name to the header as written, both in insertion order.
\<close>

record HeaderAccumulator =
  blockedLowercaseNames :: "string list"
  valuesByLowercaseName :: "(string \<times> (string \<times> string)) list"

definition createHeaderAccumulator :: HeaderAccumulator where
  "createHeaderAccumulator = \<lparr> blockedLowercaseNames = [], valuesByLowercaseName = [] \<rparr>"

definition setAdd :: "string \<Rightarrow> string list \<Rightarrow> string list" where
  "setAdd x xs = (if x \<in> set xs then xs else xs @ [x])"

definition unsetHeader :: "string \<Rightarrow> HeaderAccumulator \<Rightarrow> HeaderAccumulator" where
  "unsetHeader lowercaseName acc =
     acc\<lparr> valuesByLowercaseName := AList.delete lowercaseName (valuesByLowercaseName acc),
          blockedLowercaseNames := setAdd lowercaseName (blockedLowercaseNames acc) \<rparr>"

definition setHeader :: "bool \<Rightarrow> string \<times> string \<Rightarrow> HeaderAccumulator \<Rightarrow> HeaderAccumulator" where
  "setHeader allowBlockedOverride kv acc =
     (let lowercaseKey = toLowerCase (fst kv) in
      if lowercaseKey \<in> set (blockedLowercaseNames acc) \<and> \<not> allowBlockedOverride then acc
      else
        acc\<lparr> valuesByLowercaseName :=
               AList.update lowercaseKey kv (valuesByLowercaseName acc),
             blockedLowercaseNames :=
               (if allowBlockedOverride then removeAll lowercaseKey (blockedLowercaseNames acc)
                else blockedLowercaseNames acc) \<rparr>)"

text \<open>\<^verbatim>\<open>applyHeadersToAccumulator\<close>: first every unset of the layer, then its entries.\<close>

definition applyHeadersToAccumulator ::
  "HeaderAccumulator \<Rightarrow> header_input \<Rightarrow> bool \<Rightarrow> HeaderAccumulator" where
  "applyHeadersToAccumulator accumulator headers allowBlockedOverride =
     (let parsed = parseHeaderInput headers in
      fold (setHeader allowBlockedOverride) (entries parsed)
        (fold unsetHeader (unsetLowercaseNames parsed) accumulator))"

text \<open>
  \<^verbatim>\<open>headerAccumulatorToRecord\<close>. The entries are listed in the order the assignments created
  them; JavaScript enumerates integer-like names of an object before the others, so for such
  header names the order differs. Which names the record has, and their values, do not
  depend on it.
\<close>

definition headerAccumulatorToRecord :: "HeaderAccumulator \<Rightarrow> (string \<times> string) list" where
  "headerAccumulatorToRecord accumulator =
     fold (\<lambda>(key, v) headers. AList.update key v headers)
       (map snd (valuesByLowercaseName accumulator)) []"

text \<open>
  \<^verbatim>\<open>#mergeWebSocketHeaders\<close> applies the layers in this order: the client's auth headers (or,
  when the client has no \<^verbatim>\<open>authHeaders\<close> function, the bearer token of a usable API key),
  organization, project, the client's default headers, the SDK's own \<^verbatim>\<open>HEADERS\<close>, and last
  the per-request extra headers, the only layer applied with \<^verbatim>\<open>allowBlockedOverride\<close>.
  \<^verbatim>\<open>HEADERS\<close> comes from \<^verbatim>\<open>./defaults\<close> and is a parameter here. The awaits of this method
  (key refresh, auth headers) are steps of the request driver below.
\<close>

record client_headers =
  authHeaders :: "header_input option"
  apiKey :: jsval
  organization :: "string option"
  project :: "string option"
  defaultHeaders :: header_input

definition truthyString :: "string option \<Rightarrow> bool" where
  "truthyString s = (case s of Some t \<Rightarrow> t \<noteq> [] | None \<Rightarrow> False)"

definition webSocketHeaderLayers ::
  "client_headers \<Rightarrow> header_input \<Rightarrow> header_input \<Rightarrow> (header_input \<times> bool) list" where
  "webSocketHeaderLayers client HEADERS extraHeaders =
     [(case authHeaders client of Some h \<Rightarrow> h | None \<Rightarrow> FalsyHeaders, False)]
     @ (case (authHeaders client, apiKey client) of
          (None, Str k) \<Rightarrow>
            if length k > 0 \<and> k \<noteq> ''Missing Key''
            then [(HeaderRecord [(''Authorization'', Str (''Bearer '' @ k))], False)] else []
        | _ \<Rightarrow> [])
     @ (if truthyString (organization client)
        then [(HeaderRecord [(''OpenAI-Organization'', Str (the (organization client)))], False)]
        else [])
     @ (if truthyString (project client)
        then [(HeaderRecord [(''OpenAI-Project'', Str (the (project client)))], False)]
        else [])
     @ [(defaultHeaders client, False), (HEADERS, False), (extraHeaders, True)]"

definition applyLayers ::
  "HeaderAccumulator \<Rightarrow> (header_input \<times> bool) list \<Rightarrow> HeaderAccumulator" where
  "applyLayers accumulator layers =
     fold (\<lambda>(h, allow) acc. applyHeadersToAccumulator acc h allow) layers accumulator"

definition mergeWebSocketHeaders ::
  "client_headers \<Rightarrow> header_input \<Rightarrow> header_input \<Rightarrow> (string \<times> string) list" where
  "mergeWebSocketHeaders client HEADERS extraHeaders =
     headerAccumulatorToRecord
       (applyLayers createHeaderAccumulator (webSocketHeaderLayers client HEADERS extraHeaders))"

section \<open>Query parameters and the websocket URL\<close>

text \<open>A URL as \<^verbatim>\<open>new URL(...)\<close> parsed it; \<open>searchParams\<close> is the list of its query pairs.\<close>

record url =
  protocol :: string
  host :: string
  pathname :: string
  searchParams :: "(string \<times> string) list"

fun appendQueryParamValue ::
  "(string \<times> string) list \<Rightarrow> string \<Rightarrow> jsval \<Rightarrow> (string \<times> string) list" where
  "appendQueryParamValue params key Undefined = params"
| "appendQueryParamValue params key Null = params"
| "appendQueryParamValue params key (Arr vs) =
     fold (\<lambda>v ps. appendQueryParamValue ps (key @ ''[]'') v) vs params"
| "appendQueryParamValue params key (Obj es) =
     fold (\<lambda>(nestedKey, nestedValue) ps.
             appendQueryParamValue ps (key @ ''['' @ nestedKey @ '']'') nestedValue) es params"
| "appendQueryParamValue params key (DateV isoString s) = params @ [(key, isoString)]"
| "appendQueryParamValue params key rawValue = params @ [(key, js_String rawValue)]"

definition deleteMatching :: "string \<Rightarrow> (string \<times> string) list \<Rightarrow> (string \<times> string) list" where
  "deleteMatching key params = filter (\<lambda>(existingKey, _). \<not> matchesQueryKey key existingKey) params"

definition mergeQueryParam ::
  "string \<times> jsval \<Rightarrow> (string \<times> string) list \<Rightarrow> (string \<times> string) list" where
  "mergeQueryParam kv params =
     (if snd kv = Undefined then params
      else if snd kv = Null then deleteMatching (fst kv) params
      else appendQueryParamValue (deleteMatching (fst kv) params) (fst kv) (snd kv))"

definition mergeQueryParamsIntoURL ::
  "(string \<times> string) list \<Rightarrow> (string \<times> jsval) list option \<Rightarrow> (string \<times> string) list" where
  "mergeQueryParamsIntoURL params query =
     (case query of None \<Rightarrow> params | Some q \<Rightarrow> fold mergeQueryParam q params)"

definition stripTrailingSlashes :: "string \<Rightarrow> string" where
  "stripTrailingSlashes p = rev (dropWhile (\<lambda>c. c = CHR ''/'') (rev p))"

definition ensureResponsesWebSocketPath :: "string \<Rightarrow> string" where
  "ensureResponsesWebSocketPath p =
     (let normalizedPath = stripTrailingSlashes p in
      if normalizedPath = ''/responses'' \<or> suffix ''/responses'' normalizedPath
      then normalizedPath
      else normalizedPath @ ''/responses'')"

text \<open>
  \<^verbatim>\<open>#prepareWebSocketURL\<close>. The model holds the parsed base URLs: \<open>websocketBaseURL\<close> is the
  option given to the constructor, \<open>clientBaseURL\<close> the client's. The result is the URL
  before \<^verbatim>\<open>toString()\<close>.
\<close>

record url_config =
  websocketBaseURL :: "url option"
  clientBaseURL :: url
  defaultQuery :: "(string \<times> jsval) list option"

definition topLevelKey :: "string \<Rightarrow> string" where
  "topLevelKey key = takeWhile (\<lambda>c. c \<noteq> CHR ''['') key"

definition mergeExplicitBaseQuery ::
  "(string \<times> string) list \<Rightarrow> (string \<times> string) list \<Rightarrow> (string \<times> string) list" where
  "mergeExplicitBaseQuery explicitBaseQuery params =
     (if length explicitBaseQuery > 0
      then fold deleteMatching (fold setAdd (map (topLevelKey \<circ> fst) explicitBaseQuery) []) params
           @ explicitBaseQuery
      else params)"

definition upgradeProtocol :: "string \<Rightarrow> js_error + string" where
  "upgradeProtocol p =
     (if p = ''https:'' then Inr ''wss:''
      else if p = ''http:'' then Inr ''ws:''
      else if p \<noteq> ''ws:'' \<and> p \<noteq> ''wss:''
      then Inl (JsError UserError ''UserError''
                  (''Unsupported websocket base URL protocol: '' @ p) None)
      else Inr p)"

definition prepareWebSocketURL ::
  "url_config \<Rightarrow> (string \<times> jsval) list option \<Rightarrow> js_error + url" where
  "prepareWebSocketURL cfg extraQuery =
     (let baseURL = (case websocketBaseURL cfg of Some u \<Rightarrow> u | None \<Rightarrow> clientBaseURL cfg);
          explicitBaseQuery = map_option searchParams (websocketBaseURL cfg)
      in case upgradeProtocol (protocol baseURL) of
           Inl e \<Rightarrow> Inl e
         | Inr p \<Rightarrow>
             let withDefaults = mergeQueryParamsIntoURL (searchParams baseURL) (defaultQuery cfg);
                 withExplicit =
                   (case explicitBaseQuery of
                      Some q \<Rightarrow> mergeExplicitBaseQuery q withDefaults
                    | None \<Rightarrow> withDefaults)
             in Inr (baseURL\<lparr> protocol := p,
                              pathname := ensureResponsesWebSocketPath (pathname baseURL),
                              searchParams := mergeQueryParamsIntoURL withExplicit extraQuery \<rparr>))"

text \<open>
  A configuration in which one key, \<^verbatim>\<open>tenant\<close>, comes from the client's default query
  (also as a bracket sub-key) and from the explicit websocket base URL.
\<close>

definition exampleUrlConfig :: url_config where
  "exampleUrlConfig =
     \<lparr> websocketBaseURL =
         Some \<lparr> protocol = ''https:'', host = ''proxy.example.test'', pathname = ''/v1'',
                searchParams = [(''base_param'', ''1''), (''tenant'', ''base'')] \<rparr>,
       clientBaseURL =
         \<lparr> protocol = ''https:'', host = ''api.openai.com'', pathname = ''/v1'',
           searchParams = [] \<rparr>,
       defaultQuery =
         Some [(''tenant'', Str ''client''), (''tenant[a]'', Str ''x''),
               (''client_param'', Str ''client'')] \<rparr>"

text \<open>
  Two facts about an accumulator that the proofs below carry along: the map is keyed by the
  lower-cased spelling of the header it stores, each name once; and a name is blocked and
  has no value.
\<close>

definition hdr_inv :: "HeaderAccumulator \<Rightarrow> bool" where
  "hdr_inv acc = (distinct (map fst (valuesByLowercaseName acc)) \<and>
                  list_all (\<lambda>e. fst e = toLowerCase (fst (snd e))) (valuesByLowercaseName acc))"

definition blockedAbsent :: "string \<Rightarrow> HeaderAccumulator \<Rightarrow> bool" where
  "blockedAbsent n acc =
     (n \<in> set (blockedLowercaseNames acc) \<and> n \<notin> fst ` set (valuesByLowercaseName acc))"

text \<open>
  A client whose \<^verbatim>\<open>authHeaders\<close> returns an \<^verbatim>\<open>api-key\<close> header and unsets \<^verbatim>\<open>User-Agent\<close>, and
  an SDK header constant that sets \<^verbatim>\<open>User-Agent\<close>.
\<close>

definition azureClient :: client_headers where
  "azureClient =
     \<lparr> authHeaders = Some (NullableHeadersLike [(''api-key'', ''azure-key'')]
                            (Some [Str ''User-Agent''])),
       apiKey = Str ''sk-test'', organization = None, project = None,
       defaultHeaders = FalsyHeaders \<rparr>"

definition sdkHEADERS :: header_input where
  "sdkHEADERS = HeaderRecord [(''User-Agent'', Str ''Agents/JavaScript'')]"

section \<open>Objects: lookup, spread and rest\<close>

text \<open>
  \<^verbatim>\<open>obj.key\<close> on an object given by its entries, \<^verbatim>\<open>{...a, ...b}\<close>, and the rest of a
  destructuring \<^verbatim>\<open>const {k1, k2, ...rest} = obj\<close>. A spread writes the entries of \<open>b\<close> over
  those of \<open>a\<close>: an existing key keeps its place and takes the new value, a new key goes
  last.
\<close>

definition getProp :: "(string \<times> jsval) list \<Rightarrow> string \<Rightarrow> jsval" where
  "getProp obj key = (case map_of obj key of Some v \<Rightarrow> v | None \<Rightarrow> Undefined)"

definition spread :: "(string \<times> jsval) list \<Rightarrow> (string \<times> jsval) list \<Rightarrow> (string \<times> jsval) list" where
  "spread a b = fold (\<lambda>(key, v) obj. AList.update key v obj) b a"

definition restWithout :: "string list \<Rightarrow> (string \<times> jsval) list \<Rightarrow> (string \<times> jsval) list" where
  "restWithout keys obj = filter (\<lambda>(key, _). key \<notin> set keys) obj"

fun digitChar :: "nat \<Rightarrow> char" where
  "digitChar n = (''0123456789'' ! (n mod 10))"

fun natToString :: "nat \<Rightarrow> string" where
  "natToString n = (if n < 10 then [digitChar n] else natToString (n div 10) @ [digitChar n])"

text \<open>The own enumerable entries a value contributes when it is spread into an object.\<close>

fun ownEntries :: "jsval \<Rightarrow> (string \<times> jsval) list" where
  "ownEntries (Obj es) = es"
| "ownEntries (Instance s es) = es"
| "ownEntries (Arr xs) = map (\<lambda>i. (natToString i, xs ! i)) [0..<length xs]"
| "ownEntries (Str s) = map (\<lambda>i. (natToString i, Str [s ! i])) [0..<length s]"
| "ownEntries v = []"

fun truthy :: "jsval \<Rightarrow> bool" where
  "truthy Undefined = False"
| "truthy Null = False"
| "truthy (Bool b) = b"
| "truthy (Num s) = (s \<noteq> ''0'' \<and> s \<noteq> ''NaN'')"
| "truthy (Str s) = (s \<noteq> [])"
| "truthy v = True"

fun typeofObject :: "jsval \<Rightarrow> bool" where
  "typeofObject Null = True"
| "typeofObject (Arr xs) = True"
| "typeofObject (Obj es) = True"
| "typeofObject (DateV i s) = True"
| "typeofObject (Instance s es) = True"
| "typeofObject v = False"

section \<open>Transport overrides and the request body\<close>

definition isRecordLike :: "jsval \<Rightarrow> bool" where
  "isRecordLike v = (typeofObject v \<and> v \<noteq> Null)"

fun isArray :: "jsval \<Rightarrow> bool" where
  "isArray (Arr xs) = True"
| "isArray v = False"

fun isPlainTransportOverrideMapping :: "jsval \<Rightarrow> bool" where
  "isPlainTransportOverrideMapping (Obj es) = True"
| "isPlainTransportOverrideMapping v = False"

definition normalizeTransportOverrideMapping ::
  "jsval \<Rightarrow> string \<Rightarrow> js_error + (string \<times> jsval) list option" where
  "normalizeTransportOverrideMapping v fieldName =
     (if v = Undefined then Inr None
      else if \<not> isPlainTransportOverrideMapping v
      then Inl (JsError UserError ''UserError''
                  (''Responses websocket '' @ fieldName @ '' must be a mapping.'') None)
      else Inr (Some (ownEntries v)))"

record ResponsesTransportOverrides =
  extraHeaders :: "(string \<times> jsval) list option"
  extraQuery :: "(string \<times> jsval) list option"
  extraBody :: "(string \<times> jsval) list option"

definition snakeOrCamel :: "(string \<times> jsval) list \<Rightarrow> string \<Rightarrow> string \<Rightarrow> jsval" where
  "snakeOrCamel obj snake camel =
     (if getProp obj snake \<noteq> Undefined then getProp obj snake else getProp obj camel)"

definition splitResponsesTransportOverrides ::
  "jsval \<Rightarrow> js_error + ((string \<times> jsval) list \<times> ResponsesTransportOverrides)" where
  "splitResponsesTransportOverrides providerData =
     (if \<not> isRecordLike providerData \<or> isArray providerData
      then Inr ([], \<lparr> extraHeaders = None, extraQuery = None, extraBody = None \<rparr>)
      else
        let obj = ownEntries providerData;
            remainingProviderData =
              restWithout [''extra_headers'', ''extraHeaders'', ''extra_query'', ''extraQuery'',
                           ''extra_body'', ''extraBody''] obj
        in case normalizeTransportOverrideMapping
                  (snakeOrCamel obj ''extra_headers'' ''extraHeaders'') ''extra headers'' of
             Inl e \<Rightarrow> Inl e
           | Inr hs \<Rightarrow>
               (case normalizeTransportOverrideMapping
                       (snakeOrCamel obj ''extra_query'' ''extraQuery'') ''extra query'' of
                  Inl e \<Rightarrow> Inl e
                | Inr qs \<Rightarrow>
                    (case normalizeTransportOverrideMapping
                            (snakeOrCamel obj ''extra_body'' ''extraBody'') ''extra_body'' of
                       Inl e \<Rightarrow> Inl e
                     | Inr bs \<Rightarrow>
                         Inr (remainingProviderData,
                              \<lparr> extraHeaders = hs, extraQuery = qs, extraBody = bs \<rparr>))))"

text \<open>
  What \<^verbatim>\<open>_buildResponsesCreateRequest\<close> reads. The fields \<open>input\<close>, \<open>tools\<close>, \<open>include_list\<close>,
  \<open>toolChoice\<close> and \<open>prompt\<close> hold what \<^verbatim>\<open>getInputItems\<close>, \<^verbatim>\<open>getTools\<close>, \<^verbatim>\<open>getToolChoice\<close> and
  \<^verbatim>\<open>getPrompt\<close> returned (\<^verbatim>\<open>getPrompt\<close> returns \<^verbatim>\<open>undefined\<close> exactly when the request has no
  prompt), and \<open>getResponseFormat\<close> is \<^verbatim>\<open>getResponseFormat(request.outputType, _)\<close>. The
  other fields are the request's and its model settings' own.
\<close>

record ModelRequest =
  modelName :: string
  input :: jsval
  tools :: "jsval list"
  include_list :: jsval
  toolChoice :: jsval
  prompt :: jsval
  getResponseFormat :: "jsval \<Rightarrow> jsval"
  overridePromptModel :: jsval
  toolsExplicitlyProvided :: jsval
  systemInstructions :: "string option"
  conversationId :: jsval
  previousResponseId :: jsval
  parallelToolCalls :: jsval
  reasoning :: jsval
  text_settings :: jsval
  temperature :: jsval
  topP :: jsval
  truncation :: jsval
  maxTokens :: jsval
  store :: jsval
  promptCacheRetention :: jsval
  providerData :: jsval

text \<open>
  \<^verbatim>\<open>instructions.trim() === ''\<close>: every code point of the string is one that \<^verbatim>\<open>trim\<close> removes,
  a WhiteSpace or LineTerminator of ECMAScript. A string is the list of the bytes of its
  UTF-8 encoding: the six ASCII ones are single bytes (\<open>isWhitespace\<close>), U+00A0 is two bytes,
  and U+1680, U+2000 to U+200A, U+2028, U+2029, U+202F, U+205F, U+3000 and U+FEFF are three
  (\<open>wideWhitespace\<close>).
\<close>

definition isWhitespace :: "char \<Rightarrow> bool" where
  "isWhitespace c = (c \<in> set [CHR '' '', CHR 0x09, CHR 0x0A, CHR 0x0B, CHR 0x0C, CHR 0x0D])"

definition wideWhitespace :: "(char \<times> char \<times> char) list" where
  "wideWhitespace =
     [(CHR 0xE1, CHR 0x9A, CHR 0x80),
      (CHR 0xE2, CHR 0x80, CHR 0x80), (CHR 0xE2, CHR 0x80, CHR 0x81),
      (CHR 0xE2, CHR 0x80, CHR 0x82), (CHR 0xE2, CHR 0x80, CHR 0x83),
      (CHR 0xE2, CHR 0x80, CHR 0x84), (CHR 0xE2, CHR 0x80, CHR 0x85),
      (CHR 0xE2, CHR 0x80, CHR 0x86), (CHR 0xE2, CHR 0x80, CHR 0x87),
      (CHR 0xE2, CHR 0x80, CHR 0x88), (CHR 0xE2, CHR 0x80, CHR 0x89),
      (CHR 0xE2, CHR 0x80, CHR 0x8A),
      (CHR 0xE2, CHR 0x80, CHR 0xA8), (CHR 0xE2, CHR 0x80, CHR 0xA9),
      (CHR 0xE2, CHR 0x80, CHR 0xAF), (CHR 0xE2, CHR 0x81, CHR 0x9F),
      (CHR 0xE3, CHR 0x80, CHR 0x80), (CHR 0xEF, CHR 0xBB, CHR 0xBF)]"

fun trimsToEmpty :: "string \<Rightarrow> bool" where
  "trimsToEmpty [] = True"
| "trimsToEmpty [c] = isWhitespace c"
| "trimsToEmpty [c, d] =
     (if isWhitespace c then isWhitespace d else c = CHR 0xC2 \<and> d = CHR 0xA0)"
| "trimsToEmpty (c # d # e # cs) =
     (if isWhitespace c then trimsToEmpty (d # e # cs)
      else if c = CHR 0xC2 \<and> d = CHR 0xA0 then trimsToEmpty (e # cs)
      else (c, d, e) \<in> set wideWhitespace \<and> trimsToEmpty cs)"

definition normalizeInstructions :: "string option \<Rightarrow> jsval" where
  "normalizeInstructions instructions =
     (case instructions of
        Some s \<Rightarrow> if trimsToEmpty s then Undefined else Str s
      | None \<Rightarrow> Undefined)"

record BuiltResponsesCreateRequest =
  requestData :: "(string \<times> jsval) list"
  transportExtraHeaders :: "(string \<times> jsval) list option"
  transportExtraQuery :: "(string \<times> jsval) list option"

text \<open>
  \<^verbatim>\<open>_buildResponsesCreateRequest(request, stream)\<close>. The object literal
  (\<open>requestLiteral\<close>) is built left to right; the provider data is spread last into it, then
  \<^verbatim>\<open>extra_body\<close> over the whole (\<open>withExtraBody\<close>), and then \<^verbatim>\<open>requestData.stream = stream\<close>. The SDK request headers of the result play no part
  on the websocket path and are left out.
\<close>

definition mergeReasoning :: "ModelRequest \<Rightarrow> (string \<times> jsval) list \<Rightarrow> (string \<times> jsval) list" where
  "mergeReasoning request rest0 =
     (if truthy (reasoning request)
      then spread rest0
             [(''reasoning'',
               Obj (spread (ownEntries (reasoning request))
                      (ownEntries (getProp rest0 ''reasoning''))))]
      else rest0)"

definition mergeText :: "ModelRequest \<Rightarrow> jsval \<Rightarrow> jsval" where
  "mergeText request text =
     (if truthy (text_settings request)
      then Obj (spread (ownEntries (text_settings request)) (ownEntries text))
      else text)"

definition shouldSendModel :: "ModelRequest \<Rightarrow> bool" where
  "shouldSendModel request =
     (\<not> truthy (prompt request) \<or> overridePromptModel request = Bool True)"

definition shouldSendTools :: "ModelRequest \<Rightarrow> bool" where
  "shouldSendTools request =
     (length (tools request) > 0 \<or> toolsExplicitlyProvided request = Bool True
      \<or> \<not> truthy (prompt request))"

definition shouldOmitToolChoice :: "ModelRequest \<Rightarrow> bool" where
  "shouldOmitToolChoice request =
     (truthy (prompt request) \<and> \<not> shouldSendTools request \<and> typeofObject (toolChoice request))"

definition requestLiteral ::
  "ModelRequest \<Rightarrow> bool \<Rightarrow> (string \<times> jsval) list \<Rightarrow> jsval \<Rightarrow> (string \<times> jsval) list" where
  "requestLiteral request stream restOfProviderData responseFormat =
     spread
       (spread
          (spread
             (spread
                (spread
                   (spread
                      (if shouldSendModel request
                       then [(''model'', Str (modelName request))] else [])
                      [(''instructions'', normalizeInstructions (systemInstructions request)),
                       (''input'', input request),
                       (''include'', include_list request)])
                   (if shouldSendTools request then [(''tools'', Arr (tools request))] else []))
                ([(''conversation'', conversationId request)]
                 @ (if truthy (conversationId request) then []
                    else [(''previous_response_id'', previousResponseId request)])))
             [(''prompt'', prompt request),
              (''temperature'', temperature request),
              (''top_p'', topP request),
              (''truncation'', truncation request),
              (''max_output_tokens'', maxTokens request)])
          (if \<not> shouldOmitToolChoice request
           then [(''tool_choice'', toolChoice request)] else []))
       ([(''parallel_tool_calls'',
          (case parallelToolCalls request of Bool b \<Rightarrow> Bool b | _ \<Rightarrow> Undefined)),
         (''stream'', Bool stream),
         (''text'', responseFormat),
         (''store'', store request),
         (''prompt_cache_retention'', promptCacheRetention request)]
        @ restOfProviderData)"

definition withExtraBody ::
  "(string \<times> jsval) list option \<Rightarrow> (string \<times> jsval) list \<Rightarrow> (string \<times> jsval) list" where
  "withExtraBody body literal = (case body of Some b \<Rightarrow> spread literal b | None \<Rightarrow> literal)"

definition buildResponsesCreateRequest ::
  "ModelRequest \<Rightarrow> bool \<Rightarrow> js_error + BuiltResponsesCreateRequest" where
  "buildResponsesCreateRequest request stream =
     (case splitResponsesTransportOverrides (providerData request) of
        Inl e \<Rightarrow> Inl e
      | Inr (providerDataWithoutTransport, transportOverrides) \<Rightarrow>
          let text = getProp providerDataWithoutTransport ''text'';
              restOfProviderData =
                mergeReasoning request (restWithout [''text''] providerDataWithoutTransport);
              responseFormat = getResponseFormat request (mergeText request text)
          in if parallelToolCalls request = Bool True \<and> length (tools request) = 0
             then Inl (newError ''Parallel tool calls are not supported without tools'')
             else Inr \<lparr> requestData =
                          spread
                            (withExtraBody (extraBody transportOverrides)
                               (requestLiteral request stream restOfProviderData responseFormat))
                            [(''stream'', Bool stream)],
                        transportExtraHeaders = extraHeaders transportOverrides,
                        transportExtraQuery = extraQuery transportOverrides \<rparr>)"

text \<open>
  The frame of \<^verbatim>\<open>#prepareWebSocketRequest\<close>:
  \<^verbatim>\<open>{...builtRequest.requestData, type: 'response.create', stream: true}\<close>. The websocket
  model always builds its request with \<^verbatim>\<open>stream\<close> true.
\<close>

definition webSocketFrame :: "BuiltResponsesCreateRequest \<Rightarrow> (string \<times> jsval) list" where
  "webSocketFrame builtRequest =
     spread (requestData builtRequest)
       [(''type'', Str ''response.create''), (''stream'', Bool True)]"

definition buildWebSocketFrame :: "ModelRequest \<Rightarrow> js_error + (string \<times> jsval) list" where
  "buildWebSocketFrame request =
     (case buildResponsesCreateRequest request True of
        Inl e \<Rightarrow> Inl e
      | Inr builtRequest \<Rightarrow> Inr (webSocketFrame builtRequest))"

text \<open>The request of the test "prevents request providerData from overriding websocket frame type",
  with a conflicting \<^verbatim>\<open>stream\<close> added to its \<^verbatim>\<open>extra_body\<close>. It has no tools, so \<^verbatim>\<open>getTools\<close>
  returns an empty \<^verbatim>\<open>include\<close>, and its output type is \<^verbatim>\<open>text\<close>, for which \<^verbatim>\<open>getResponseFormat\<close>
  returns the other properties as they are.\<close>

definition pingRequest :: ModelRequest where
  "pingRequest =
     \<lparr> modelName = ''gpt-ws'',
       input = Arr [Obj [(''role'', Str ''user''), (''content'', Str ''ping'')]],
       tools = [], include_list = Arr [], toolChoice = Undefined, prompt = Undefined,
       getResponseFormat = (\<lambda>otherProperties. otherProperties),
       overridePromptModel = Undefined, toolsExplicitlyProvided = Undefined,
       systemInstructions = None, conversationId = Undefined, previousResponseId = Undefined,
       parallelToolCalls = Undefined, reasoning = Undefined, text_settings = Undefined,
       temperature = Undefined, topP = Undefined, truncation = Undefined,
       maxTokens = Undefined, store = Undefined, promptCacheRetention = Undefined,
       providerData =
         Obj [(''extra_body'',
               Obj [(''type'', Str ''user.overridden.type''), (''stream'', Bool False),
                    (''metadata'', Obj [(''transport'', Str ''ws'')])])] \<rparr>"

text \<open>What \<^verbatim>\<open>_buildResponsesCreateRequest\<close> returns for it.\<close>

definition pingBuilt :: BuiltResponsesCreateRequest where
  "pingBuilt =
     \<lparr> requestData =
         [(''model'', Str ''gpt-ws''), (''instructions'', Undefined),
          (''input'', Arr [Obj [(''role'', Str ''user''), (''content'', Str ''ping'')]]),
          (''include'', Arr []), (''tools'', Arr []), (''conversation'', Undefined),
          (''previous_response_id'', Undefined), (''prompt'', Undefined),
          (''temperature'', Undefined), (''top_p'', Undefined), (''truncation'', Undefined),
          (''max_output_tokens'', Undefined), (''tool_choice'', Undefined),
          (''parallel_tool_calls'', Undefined), (''stream'', Bool True), (''text'', Undefined),
          (''store'', Undefined), (''prompt_cache_retention'', Undefined),
          (''type'', Str ''user.overridden.type''),
          (''metadata'', Obj [(''transport'', Str ''ws'')])],
       transportExtraHeaders = None, transportExtraQuery = None \<rparr>"

section \<open>Item translator: function calls\<close>

text \<open>
  \<^verbatim>\<open>protocol.FunctionCallItem\<close> as \<^verbatim>\<open>getInputItems\<close> reads it. The wire item is an object.
\<close>

record FunctionCallItem =
  item_id :: "string option"
  callId :: string
  name :: string
  arguments :: string
  status :: "string option"
  itemProviderData :: "(string \<times> jsval) list option"

datatype ModelInput = InputText string | InputItems "FunctionCallItem list"

definition optStr :: "string option \<Rightarrow> jsval" where
  "optStr s = (case s of Some t \<Rightarrow> Str t | None \<Rightarrow> Undefined)"

text \<open>
  Modelled from the spec: \<^verbatim>\<open>camelOrSnakeToSnakeCase\<close> of \<^verbatim>\<open>./utils/providerData\<close> is missing
  from the sources. The spec says of the translator that "every legacy/alias field name is
  normalized to one canonical field before translation"; by the function's name the
  canonical form of a key is snake case: an underscore before each upper-case ASCII letter,
  which is lower-cased. The keys of nested objects are rewritten too; a class instance or a
  \<^verbatim>\<open>Date\<close> is an object and comes back as the plain object of its own enumerable entries.
  Arrays, \<^verbatim>\<open>null\<close> and primitive values are returned as they are. Keys are taken to be
  ASCII.
\<close>

definition isUpperCase :: "char \<Rightarrow> bool" where
  "isUpperCase c = (c \<in> set ''ABCDEFGHIJKLMNOPQRSTUVWXYZ'')"

definition toSnakeKey :: "string \<Rightarrow> string" where
  "toSnakeKey key =
     concat (map (\<lambda>c. if isUpperCase c then [CHR ''_'', toLowerChar c] else [c]) key)"

fun camelOrSnakeToSnakeCase :: "jsval \<Rightarrow> jsval" where
  "camelOrSnakeToSnakeCase (Obj es) =
     Obj (spread [] (map (\<lambda>(key, v). (toSnakeKey key, camelOrSnakeToSnakeCase v)) es))"
| "camelOrSnakeToSnakeCase (Instance s es) =
     Obj (spread [] (map (\<lambda>(key, v). (toSnakeKey key, camelOrSnakeToSnakeCase v)) es))"
| "camelOrSnakeToSnakeCase (DateV isoString s) = Obj []"
| "camelOrSnakeToSnakeCase v = v"

text \<open>
  What the spread \<^verbatim>\<open>...camelOrSnakeToSnakeCase(item.providerData)\<close> contributes; \<^verbatim>\<open>undefined\<close>
  contributes nothing.
\<close>

definition snakeCaseBag :: "(string \<times> jsval) list option \<Rightarrow> (string \<times> jsval) list" where
  "snakeCaseBag bag =
     ownEntries (camelOrSnakeToSnakeCase (case bag of Some es \<Rightarrow> Obj es | None \<Rightarrow> Undefined))"

text \<open>
  The \<^verbatim>\<open>function_call\<close> branch of \<^verbatim>\<open>getInputItems\<close>: the object literal starts with the
  item's own fields (\<open>functionCallFields\<close>) and ends with the spread of the normalised
  provider data.
\<close>

definition functionCallFields :: "FunctionCallItem \<Rightarrow> (string \<times> jsval) list" where
  "functionCallFields item =
     [(''id'', optStr (item_id item)),
      (''type'', Str ''function_call''),
      (''name'', Str (name item)),
      (''call_id'', Str (callId item)),
      (''arguments'', Str (arguments item)),
      (''status'', optStr (status item))]"

definition functionCallEntry :: "FunctionCallItem \<Rightarrow> (string \<times> jsval) list" where
  "functionCallEntry item =
     spread (functionCallFields item) (snakeCaseBag (itemProviderData item))"

text \<open>\<^verbatim>\<open>getInputItems\<close> on a string, and on a list of items that are all function calls.\<close>

fun getInputItems :: "ModelInput \<Rightarrow> (string \<times> jsval) list list" where
  "getInputItems (InputText s) = [(''role'', Str ''user''), (''content'', Str s)] # []"
| "getInputItems (InputItems items) = map functionCallEntry items"

text \<open>
  \<^verbatim>\<open>convertToOutputItem\<close>: the branch taken is decided by the wire item's \<^verbatim>\<open>type\<close>. The
  \<^verbatim>\<open>function_call\<close> branch is modelled; an item that takes any other branch is
  \<open>OtherBranch\<close>. \<open>destructuredKeys\<close> are the keys its destructuring takes out of the wire
  item before the rest becomes the provider data.
\<close>

record ProtocolFunctionCall =
  out_id :: jsval
  out_callId :: jsval
  out_name :: jsval
  out_status :: jsval
  out_arguments :: jsval
  out_providerData :: "(string \<times> jsval) list"

datatype OutputModelItem = FunctionCallOut ProtocolFunctionCall | OtherBranch

definition destructuredKeys :: "string list" where
  "destructuredKeys = [''call_id'', ''name'', ''status'', ''arguments'']"

definition convertItem :: "(string \<times> jsval) list \<Rightarrow> OutputModelItem" where
  "convertItem item =
     (if getProp item ''type'' = Str ''message'' then OtherBranch
      else if getProp item ''type'' \<in> set [Str ''file_search_call'', Str ''web_search_call'',
                Str ''image_generation_call'', Str ''code_interpreter_call''] then OtherBranch
      else if getProp item ''type'' = Str ''function_call'' then
        FunctionCallOut
          \<lparr> out_id = getProp item ''id'',
            out_callId = getProp item ''call_id'',
            out_name = getProp item ''name'',
            out_status = getProp item ''status'',
            out_arguments = getProp item ''arguments'',
            out_providerData = restWithout destructuredKeys item \<rparr>
      else OtherBranch)"

definition convertToOutputItem :: "(string \<times> jsval) list list \<Rightarrow> OutputModelItem list" where
  "convertToOutputItem items = map convertItem items"

text \<open>
  The normalised provider data does not change any field that \<^verbatim>\<open>getInputItems\<close> writes
  itself: under each of these keys it has no entry, or the value the field has.
\<close>

definition bagKeepsFields :: "FunctionCallItem \<Rightarrow> bool" where
  "bagKeepsFields item =
     (\<forall>(key, field) \<in> set (functionCallFields item).
        map_of (snakeCaseBag (itemProviderData item)) key \<in> {None, Some field})"

text \<open>
  Three function calls: one whose bag is the one \<^verbatim>\<open>convertToOutputItem\<close> returns (with \<^verbatim>\<open>id\<close>
  and \<^verbatim>\<open>type\<close>) and a foreign key, one whose bag names \<^verbatim>\<open>name\<close>, and one whose bag has
  camel-case keys.
\<close>

definition lookupCall :: FunctionCallItem where
  "lookupCall =
     \<lparr> item_id = Some ''fc_1'', callId = ''call_1'', name = ''lookup'',
       arguments = ''{}'', status = Some ''completed'',
       itemProviderData =
         Some [(''id'', Str ''fc_1''), (''type'', Str ''function_call''),
               (''vendor_note'', Str ''kept'')] \<rparr>"

definition collidingCall :: FunctionCallItem where
  "collidingCall =
     \<lparr> item_id = Some ''fc_1'', callId = ''call_1'', name = ''lookup'',
       arguments = ''{}'', status = Some ''completed'',
       itemProviderData = Some [(''name'', Str ''other'')] \<rparr>"

definition camelCall :: FunctionCallItem where
  "camelCall =
     \<lparr> item_id = Some ''fc_1'', callId = ''call_1'', name = ''lookup'',
       arguments = ''{}'', status = Some ''completed'',
       itemProviderData = Some [(''vendorNote'', Obj [(''traceId'', Str ''t1'')])] \<rparr>"

section \<open>Error classification\<close>

definition shouldWrapNoEventWebSocketError :: "js_error \<Rightarrow> bool" where
  "shouldWrapNoEventWebSocketError e =
     (case e of
        JsError (ResponsesWebSocketInternalError code) n m c \<Rightarrow>
          code = connection_closed_before_opening
          \<or> code = connection_closed_before_terminal_response_event
      | JsError k n m c \<Rightarrow>
          m = ''Responses websocket connection closed before opening.''
          \<or> m = ''Responses websocket connection closed before a terminal response event.''
      | NonErrorValue \<Rightarrow> False)"

definition isWebSocketNotOpenError :: "js_error \<Rightarrow> bool" where
  "isWebSocketNotOpenError e =
     (case e of
        JsError (ResponsesWebSocketInternalError code) n m c \<Rightarrow> code = socket_not_open
      | JsError k n m c \<Rightarrow>
          m = ''Responses websocket is not open.''
          \<or> n = ''InvalidStateError''
          \<or> startsWith m ''WebSocket is not open: readyState ''
      | NonErrorValue \<Rightarrow> False)"

text \<open>
  \<^verbatim>\<open>new OpenAI.APIUserAbortError()\<close>. The class is the client library's; its name and
  message are that library's defaults.
\<close>

definition abortError :: js_error where
  "abortError = JsError APIUserAbortError ''Error'' ''Request was aborted.'' None"

definition isAbortError :: "js_error \<Rightarrow> bool" where
  "isAbortError e = (case e of JsError APIUserAbortError n m c \<Rightarrow> True | _ \<Rightarrow> False)"

definition socketNotOpenError :: js_error where
  "socketNotOpenError = newInternalError socket_not_open ''Responses websocket is not open.''"

definition closedBeforeOpeningError :: js_error where
  "closedBeforeOpeningError =
     newInternalError connection_closed_before_opening
       ''Responses websocket connection closed before opening.''"

definition closedBeforeTerminalError :: js_error where
  "closedBeforeTerminalError =
     newInternalError connection_closed_before_terminal_response_event
       ''Responses websocket connection closed before a terminal response event.''"

definition mayHaveBeenAcceptedError :: js_error where
  "mayHaveBeenAcceptedError =
     newError (''Responses websocket connection closed after sending a request on a reused ''
       @ ''connection before any response events were received. The request may have been ''
       @ ''accepted, so the SDK will not automatically retry this websocket request.'')"

text \<open>The wrapper of the \<^verbatim>\<open>catch\<close> block; the cause is attached when the original is an \<^verbatim>\<open>Error\<close>.\<close>

definition featureNotEnabledError :: "js_error \<Rightarrow> js_error" where
  "featureNotEnabledError original =
     JsError PlainError ''Error''
       (''Responses websocket connection closed before any response events were received. ''
        @ ''The feature may not be enabled for this account or model yet.'')
       (case original of NonErrorValue \<Rightarrow> None | e \<Rightarrow> Some e)"

text \<open>The \<^verbatim>\<open>catch\<close> block of \<^verbatim>\<open>#iterWebSocketResponseEvents\<close>: what is thrown on.\<close>

definition catchBlock :: "bool \<Rightarrow> js_error \<Rightarrow> js_error" where
  "catchBlock receivedAny e =
     (if \<not> receivedAny \<and> \<not> isAbortError e \<and> shouldWrapNoEventWebSocketError e
      then featureNotEnabledError e else e)"

section \<open>Terminal events\<close>

definition isTerminalResponsesStreamEventType :: "string option \<Rightarrow> bool" where
  "isTerminalResponsesStreamEventType eventType =
     (case eventType of
        Some t \<Rightarrow> t \<in> set [''response.completed'', ''response.failed'',
                             ''response.incomplete'', ''response.error'']
      | None \<Rightarrow> False)"

text \<open>\<^verbatim>\<open>isRecord(payload) && typeof payload.type === 'string' ? payload.type : undefined\<close>.\<close>

definition eventTypeOf :: "jsval \<Rightarrow> string option" where
  "eventTypeOf payload =
     (if isRecordLike payload
      then (case getProp (ownEntries payload) ''type'' of Str t \<Rightarrow> Some t | _ \<Rightarrow> None)
      else None)"

section \<open>The websocket model: cache, request lock, one request\<close>

text \<open>
  The private fields of \<^verbatim>\<open>OpenAIResponsesWSModel\<close>, and next to them a log of what the
  model did to the outside. A connection is the number of the socket it wraps. The request
  lock is a promise chain: \<open>wsRequestLock\<close> lists the requests whose own lock the chain
  waits for, \<open>locks\<close> holds for each request the \<^verbatim>\<open>released\<close> flag of its release callback
  and how often its own promise was resolved.
\<close>

record ownLock =
  released :: bool
  resolveCalls :: nat

record OpenAIResponsesWSModel =
  reuseConnection :: bool
  wsConnection :: "nat option"
  wsConnectionIdentity :: "string option"
  wsRequestLock :: "nat list"
  locks :: "ownLock list"
  opened :: nat
  closeCalls :: "nat list"
  sendCalls :: "(nat \<times> bool) list"
  reconnects :: nat

definition newModel :: "bool \<Rightarrow> OpenAIResponsesWSModel" where
  "newModel reuse =
     \<lparr> reuseConnection = reuse, wsConnection = None, wsConnectionIdentity = None,
       wsRequestLock = [], locks = [], opened = 0, closeCalls = [], sendCalls = [],
       reconnects = 0 \<rparr>"

text \<open>
  What the world answers during one request. \<open>abortedAt n\<close> is \<^verbatim>\<open>signal.aborted\<close> at the
  \<open>n\<close>-th \<^verbatim>\<open>throwIfAborted\<close> the request can reach, in program order: 0 on entering
  \<^verbatim>\<open>#acquireWebSocketRequestLock\<close>, 1 after its wait, 2 to 4 in the \<^verbatim>\<open>try\<close> block (on entry,
  after preparing, after ensuring the connection), 5 and 6 in
  \<^verbatim>\<open>#reconnectWebSocketConnection\<close>. Every await has its outcome: \<open>queueWait\<close> (a rejection
  of the bounded wait for the previous lock, by timeout or abort), \<open>prepared\<close> (a failure
  of \<^verbatim>\<open>#prepareWebSocketRequest\<close>, or the identity of the URL and headers it made),
  \<open>connect1\<close>/\<open>connect2\<close> (opening a socket, deadline check included), \<open>send1\<close>/\<open>send2\<close>,
  and \<open>frames\<close>, the outcomes of the successive frame reads; when they run out the next
  read never settles. \<open>consumerStopsAfter\<close> is the number of events after which the
  consumer leaves the iteration, if it does.
\<close>

datatype frame_read =
    Frame "js_error + jsval"
  | NoMoreFrames
  | ReadFailed js_error

record request_env =
  abortedAt :: "nat \<Rightarrow> bool"
  configuredTimeoutMs :: string
  queueDeadlinePassed :: bool
  queueWait :: "js_error option"
  prepared :: "js_error + string"
  cachedReusable :: bool
  connect1 :: "js_error option"
  send1 :: "js_error option"
  connect2 :: "js_error option"
  send2 :: "js_error option"
  frames :: "frame_read list"
  consumerStopsAfter :: "nat option"
  jsonStringify :: "jsval \<Rightarrow> string"

datatype outcome = Completed | Threw js_error | EndedEarly | WaitsForLock | WaitsForFrame

record request_result =
  outcome :: outcome
  yielded :: "jsval list"
  receivedAnyEvent :: bool
  sawTerminalResponseEvent :: bool
  final :: OpenAIResponsesWSModel

definition releaseLock :: "nat \<Rightarrow> OpenAIResponsesWSModel \<Rightarrow> OpenAIResponsesWSModel" where
  "releaseLock t m =
     (if t < length (locks m) \<and> \<not> released (locks m ! t)
      then m\<lparr> locks := (locks m)[t := \<lparr> released = True,
                                           resolveCalls = resolveCalls (locks m ! t) + 1 \<rparr>] \<rparr>
      else m)"

definition lockResolved :: "OpenAIResponsesWSModel \<Rightarrow> nat list \<Rightarrow> bool" where
  "lockResolved m chain =
     list_all (\<lambda>t. t < length (locks m) \<and> resolveCalls (locks m ! t) > 0) chain"

definition dropWebSocketConnection :: "OpenAIResponsesWSModel \<Rightarrow> OpenAIResponsesWSModel" where
  "dropWebSocketConnection m =
     (case wsConnection m of
        None \<Rightarrow> m\<lparr> wsConnectionIdentity := None \<rparr>
      | Some connectionToClose \<Rightarrow>
          m\<lparr> wsConnection := None, wsConnectionIdentity := None,
             closeCalls := closeCalls m @ [connectionToClose] \<rparr>)"

text \<open>\<^verbatim>\<open>#ensureWebSocketConnection\<close>: the connection and whether it was reused.\<close>

definition ensureWebSocketConnection ::
  "OpenAIResponsesWSModel \<Rightarrow> string \<Rightarrow> bool \<Rightarrow> js_error option
     \<Rightarrow> (js_error + nat \<times> bool) \<times> OpenAIResponsesWSModel" where
  "ensureWebSocketConnection m identity reusable connectOutcome =
     (case wsConnection m of
        Some c \<Rightarrow>
          if wsConnectionIdentity m = Some identity \<and> reusable then (Inr (c, True), m)
          else
            (let m1 = dropWebSocketConnection m in
             case connectOutcome of
               Some e \<Rightarrow> (Inl e, m1)
             | None \<Rightarrow> (Inr (opened m1, False),
                         m1\<lparr> wsConnection := Some (opened m1),
                             wsConnectionIdentity := Some identity,
                             opened := opened m1 + 1 \<rparr>))
      | None \<Rightarrow>
          (let m1 = dropWebSocketConnection m in
           case connectOutcome of
             Some e \<Rightarrow> (Inl e, m1)
           | None \<Rightarrow> (Inr (opened m1, False),
                       m1\<lparr> wsConnection := Some (opened m1),
                           wsConnectionIdentity := Some identity,
                           opened := opened m1 + 1 \<rparr>)))"

definition reconnectWebSocketConnection ::
  "OpenAIResponsesWSModel \<Rightarrow> string \<Rightarrow> request_env
     \<Rightarrow> (js_error + nat \<times> bool) \<times> OpenAIResponsesWSModel" where
  "reconnectWebSocketConnection m identity env =
     (let m1 = (dropWebSocketConnection m)\<lparr> reconnects := reconnects m + 1 \<rparr> in
      if abortedAt env 5 then (Inl abortError, m1)
      else
        case ensureWebSocketConnection m1 identity (cachedReusable env) (connect2 env) of
          (Inl e, m2) \<Rightarrow> (Inl e, m2)
        | (Inr c, m2) \<Rightarrow> if abortedAt env 6 then (Inl abortError, m2) else (Inr c, m2))"

definition recordSend :: "nat \<Rightarrow> js_error option \<Rightarrow> OpenAIResponsesWSModel \<Rightarrow> OpenAIResponsesWSModel" where
  "recordSend c sendOutcome m = m\<lparr> sendCalls := sendCalls m @ [(c, sendOutcome = None)] \<rparr>"

text \<open>\<^verbatim>\<open>sendSerializedFrame\<close>: the connection the frame went out on, or the error.\<close>

definition sendSerializedFrame ::
  "OpenAIResponsesWSModel \<Rightarrow> string \<Rightarrow> request_env \<Rightarrow> nat \<times> bool
     \<Rightarrow> (js_error + nat \<times> bool) \<times> OpenAIResponsesWSModel" where
  "sendSerializedFrame m identity env active =
     (let m1 = recordSend (fst active) (send1 env) m in
      case send1 env of
        None \<Rightarrow> (Inr active, m1)
      | Some e \<Rightarrow>
          if \<not> isWebSocketNotOpenError e then (Inl e, m1)
          else
            case reconnectWebSocketConnection m1 identity env of
              (Inl e', m2) \<Rightarrow> (Inl e', m2)
            | (Inr next, m2) \<Rightarrow>
                (let m3 = recordSend (fst next) (send2 env) m2 in
                 case send2 env of
                   None \<Rightarrow> (Inr next, m3)
                 | Some e2 \<Rightarrow> (Inl e2, m3)))"

text \<open>
  The \<^verbatim>\<open>while (true)\<close> loop: outcome, \<^verbatim>\<open>receivedAnyEvent\<close>, \<^verbatim>\<open>sawTerminalResponseEvent\<close>, and
  the events yielded. A consumer that leaves at a \<^verbatim>\<open>yield\<close> completes the generator there.
\<close>

fun readLoop ::
  "(jsval \<Rightarrow> string) \<Rightarrow> bool \<Rightarrow> nat option \<Rightarrow> frame_read list \<Rightarrow> bool \<Rightarrow> jsval list
     \<Rightarrow> outcome \<times> bool \<times> bool \<times> jsval list" where
  "readLoop stringify reused stop [] received ys = (WaitsForFrame, received, False, ys)"
| "readLoop stringify reused stop (ReadFailed e # fs) received ys = (Threw e, received, False, ys)"
| "readLoop stringify reused stop (NoMoreFrames # fs) received ys =
     (if \<not> received \<and> reused then (Threw mayHaveBeenAcceptedError, True, False, ys)
      else (Threw closedBeforeTerminalError, received, False, ys))"
| "readLoop stringify reused stop (Frame (Inl e) # fs) received ys = (Threw e, received, False, ys)"
| "readLoop stringify reused stop (Frame (Inr payload) # fs) received ys =
     (if eventTypeOf payload = Some ''error''
      then (Threw (newError (''Responses websocket error: '' @ stringify payload)),
            True, False, ys)
      else if stop = Some (length ys + 1)
      then (EndedEarly, True, isTerminalResponsesStreamEventType (eventTypeOf payload),
            ys @ [payload])
      else if isTerminalResponsesStreamEventType (eventTypeOf payload)
      then (Completed, True, True, ys @ [payload])
      else readLoop stringify reused stop fs True (ys @ [payload]))"

definition bodyResult ::
  "outcome \<Rightarrow> bool \<Rightarrow> bool \<Rightarrow> jsval list \<Rightarrow> OpenAIResponsesWSModel \<Rightarrow> request_result" where
  "bodyResult out received saw ys m =
     \<lparr> outcome = out, yielded = ys, receivedAnyEvent = received,
       sawTerminalResponseEvent = saw, final = m \<rparr>"

text \<open>The \<^verbatim>\<open>try\<close> block of \<^verbatim>\<open>#iterWebSocketResponseEvents\<close>.\<close>

definition tryBlock :: "OpenAIResponsesWSModel \<Rightarrow> request_env \<Rightarrow> request_result" where
  "tryBlock m env =
     (if abortedAt env 2 then bodyResult (Threw abortError) False False [] m
      else
        case prepared env of
          Inl e \<Rightarrow> bodyResult (Threw e) False False [] m
        | Inr identity \<Rightarrow>
            if abortedAt env 3 then bodyResult (Threw abortError) False False [] m
            else
              case ensureWebSocketConnection m identity (cachedReusable env) (connect1 env) of
                (Inl e, m1) \<Rightarrow> bodyResult (Threw e) False False [] m1
              | (Inr connection, m1) \<Rightarrow>
                  if abortedAt env 4 then bodyResult (Threw abortError) False False [] m1
                  else
                    case sendSerializedFrame m1 identity env connection of
                      (Inl e, m2) \<Rightarrow> bodyResult (Threw e) False False [] m2
                    | (Inr active, m2) \<Rightarrow>
                        (case readLoop (jsonStringify env) (snd active) (consumerStopsAfter env)
                                (frames env) False [] of
                           (out, received, saw, ys) \<Rightarrow> bodyResult out received saw ys m2))"

text \<open>
  \<^verbatim>\<open>catch\<close> and \<^verbatim>\<open>finally\<close> around it, for the request holding lock \<open>t\<close>. While a frame
  read is pending nothing of either runs.
\<close>

definition runLocked :: "OpenAIResponsesWSModel \<Rightarrow> request_env \<Rightarrow> nat \<Rightarrow> request_result" where
  "runLocked m env t =
     (let b = tryBlock m env in
      if outcome b = WaitsForFrame then b
      else
        let shouldDropConnection = (\<not> sawTerminalResponseEvent b \<or> \<not> reuseConnection (final b));
            m1 = (if shouldDropConnection then dropWebSocketConnection (final b) else final b)
        in b\<lparr> outcome := (case outcome b of
                             Threw e \<Rightarrow> Threw (catchBlock (receivedAnyEvent b) e)
                           | out \<Rightarrow> out),
               final := releaseLock t m1 \<rparr>)"

text \<open>
  \<^verbatim>\<open>#acquireWebSocketRequestLock\<close> in its two halves: up to the await (the request joins
  the chain as \<open>t\<close>, behind \<open>previousLock\<close>), and from the await on.
\<close>

definition queueTimeoutError :: "request_env \<Rightarrow> js_error" where
  "queueTimeoutError env =
     newError (''Responses websocket request queue wait timed out after ''
               @ configuredTimeoutMs env @ ''ms.'')"

definition enqueueRequest ::
  "OpenAIResponsesWSModel \<Rightarrow> request_env \<Rightarrow> js_error + (nat \<times> nat list \<times> OpenAIResponsesWSModel)" where
  "enqueueRequest m env =
     (if abortedAt env 0 then Inl abortError
      else if queueDeadlinePassed env then Inl (queueTimeoutError env)
      else
        let t = length (locks m); previousLock = wsRequestLock m
        in Inr (t, previousLock,
                m\<lparr> locks := locks m @ [\<lparr> released = False, resolveCalls = 0 \<rparr>],
                   wsRequestLock := previousLock @ [t] \<rparr>))"

definition resumeRequest ::
  "OpenAIResponsesWSModel \<Rightarrow> request_env \<Rightarrow> nat \<Rightarrow> nat list \<Rightarrow> request_result" where
  "resumeRequest m env t previousLock =
     (case queueWait env of
        Some e \<Rightarrow> bodyResult (Threw e) False False [] (releaseLock t m)
      | None \<Rightarrow>
          if \<not> lockResolved m previousLock then bodyResult WaitsForLock False False [] m
          else if abortedAt env 1
          then bodyResult (Threw abortError) False False [] (releaseLock t m)
          else runLocked m env t)"

text \<open>\<^verbatim>\<open>#iterWebSocketResponseEvents\<close>, run from start to end with nothing in between.\<close>

definition iterWebSocketResponseEvents ::
  "OpenAIResponsesWSModel \<Rightarrow> request_env \<Rightarrow> request_result" where
  "iterWebSocketResponseEvents m env =
     (case enqueueRequest m env of
        Inl e \<Rightarrow> bodyResult (Threw e) False False [] m
      | Inr (t, previousLock, m1) \<Rightarrow> resumeRequest m1 env t previousLock)"

text \<open>
  The request got the lock on its first try: nothing stopped it before or during the wait,
  and every request before it has released.
\<close>

definition acquiresLock :: "OpenAIResponsesWSModel \<Rightarrow> request_env \<Rightarrow> bool" where
  "acquiresLock m env =
     (\<not> abortedAt env 0 \<and> \<not> queueDeadlinePassed env \<and> queueWait env = None
      \<and> lockResolved m (wsRequestLock m) \<and> \<not> abortedAt env 1)"

text \<open>The model as the request finds it once it holds the lock.\<close>

definition enqueued :: "OpenAIResponsesWSModel \<Rightarrow> OpenAIResponsesWSModel" where
  "enqueued m =
     m\<lparr> locks := locks m @ [\<lparr> released = False, resolveCalls = 0 \<rparr>],
        wsRequestLock := wsRequestLock m @ [length (locks m)] \<rparr>"

text \<open>
  Bookkeeping of the sockets: every socket opened so far is either the cached one or has
  had \<^verbatim>\<open>close()\<close> called on it, never both.
\<close>

definition cacheInv :: "OpenAIResponsesWSModel \<Rightarrow> bool" where
  "cacheInv m =
     (list_all (\<lambda>c. c < opened m \<and> wsConnection m \<noteq> Some c) (closeCalls m)
      \<and> list_all (\<lambda>c. c \<in> set (closeCalls m) \<or> wsConnection m = Some c) [0..<opened m]
      \<and> (case wsConnection m of Some c \<Rightarrow> c < opened m | None \<Rightarrow> True))"

text \<open>
  A world in which nothing goes wrong and nobody aborts; the examples below change the
  answers they need. \<open>createdEvent\<close>, \<open>failedEvent\<close> and \<open>completedEvent\<close> are server events.
\<close>

definition quietEnv :: request_env where
  "quietEnv =
     \<lparr> abortedAt = (\<lambda>n. False), configuredTimeoutMs = ''600000'',
       queueDeadlinePassed = False, queueWait = None,
       prepared = Inr ''wss://api.openai.com/v1/responses'',
       cachedReusable = True, connect1 = None, send1 = None, connect2 = None, send2 = None,
       frames = [], consumerStopsAfter = None, jsonStringify = (\<lambda>payload. ''{}'') \<rparr>"

definition createdEvent :: jsval where
  "createdEvent = Obj [(''type'', Str ''response.created''),
                       (''response'', Obj [(''id'', Str ''resp_init'')])]"

definition failedEvent :: jsval where
  "failedEvent = Obj [(''type'', Str ''response.failed''),
                      (''response'', Obj [(''id'', Str ''resp_terminal''),
                                          (''status'', Str ''failed'')])]"

definition completedEvent :: jsval where
  "completedEvent = Obj [(''type'', Str ''response.completed''),
                         (''response'', Obj [(''id'', Str ''resp_done'')])]"

text \<open>A model that has a reusable connection cached from an earlier request.\<close>

definition warmModel :: OpenAIResponsesWSModel where
  "warmModel =
     \<lparr> reuseConnection = True, wsConnection = Some 0,
       wsConnectionIdentity = Some ''wss://api.openai.com/v1/responses'',
       wsRequestLock = [0], locks = [\<lparr> released = True, resolveCalls = 1 \<rparr>],
       opened = 1, closeCalls = [], sendCalls = [(0, True)], reconnects = 0 \<rparr>"

text \<open>The request reaches its first send: it has the lock, is not aborted, and has a connection.\<close>

definition reachesSend :: "OpenAIResponsesWSModel \<Rightarrow> request_env \<Rightarrow> bool" where
  "reachesSend m env =
     (acquiresLock m env \<and> \<not> abortedAt env 2 \<and> \<not> abortedAt env 3 \<and> \<not> abortedAt env 4
      \<and> (case prepared env of Inr i \<Rightarrow> True | Inl e \<Rightarrow> False) \<and> connect1 env = None)"

text \<open>Worlds for the examples: what the server sends, or what fails.\<close>

definition completedRunEnv :: request_env where
  "completedRunEnv = quietEnv\<lparr> frames := [Frame (Inr createdEvent), Frame (Inr completedEvent)] \<rparr>"

definition failedRunEnv :: request_env where
  "failedRunEnv = quietEnv\<lparr> frames := [Frame (Inr createdEvent), Frame (Inr failedEvent)] \<rparr>"

definition closedAfterSendEnv :: request_env where
  "closedAfterSendEnv = quietEnv\<lparr> frames := [NoMoreFrames] \<rparr>"

definition staleSocketEnv :: request_env where
  "staleSocketEnv = quietEnv\<lparr> send1 := Some socketNotOpenError, send2 := Some socketNotOpenError \<rparr>"

definition resentRunEnv :: request_env where
  "resentRunEnv =
     quietEnv\<lparr> send1 := Some socketNotOpenError,
               frames := [Frame (Inr createdEvent), Frame (Inr completedEvent)] \<rparr>"

definition neverOpensEnv :: request_env where
  "neverOpensEnv = quietEnv\<lparr> connect1 := Some closedBeforeOpeningError \<rparr>"

definition abortedWhilePreparingEnv :: request_env where
  "abortedWhilePreparingEnv = quietEnv\<lparr> abortedAt := (\<lambda>n. 3 \<le> n) \<rparr>"

definition frameTimeoutEnv :: request_env where
  "frameTimeoutEnv =
     quietEnv\<lparr> frames := [ReadFailed (newError
                  ''Responses websocket frame read timed out after 600000ms.'')] \<rparr>"

section \<open>Evaluating the examples\<close>

text \<open>The definitions a run of one request unfolds to.\<close>

lemmas run_defs =
  iterWebSocketResponseEvents_def enqueueRequest_def resumeRequest_def runLocked_def
  tryBlock_def ensureWebSocketConnection_def sendSerializedFrame_def
  reconnectWebSocketConnection_def recordSend_def dropWebSocketConnection_def
  releaseLock_def lockResolved_def bodyResult_def catchBlock_def
  isAbortError_def shouldWrapNoEventWebSocketError_def isWebSocketNotOpenError_def
  eventTypeOf_def isRecordLike_def getProp_def isTerminalResponsesStreamEventType_def
  newError_def newInternalError_def abortError_def socketNotOpenError_def
  closedBeforeOpeningError_def closedBeforeTerminalError_def mayHaveBeenAcceptedError_def
  featureNotEnabledError_def queueTimeoutError_def startsWith_def
  acquiresLock_def reachesSend_def enqueued_def cacheInv_def
  newModel_def warmModel_def quietEnv_def createdEvent_def failedEvent_def completedEvent_def
  completedRunEnv_def failedRunEnv_def closedAfterSendEnv_def staleSocketEnv_def
  resentRunEnv_def
  neverOpensEnv_def abortedWhilePreparingEnv_def frameTimeoutEnv_def

section \<open>Properties of the connection\<close>

lemma onMessages_buffers:
  "waiters c = [] \<Longrightarrow>
   onMessages c ds = c\<lparr>messages := messages c @ ds\<rparr>"
proof (induction ds arbitrary: c)
  case Nil
  then show ?case by simp
next
  case (Cons d ds)
  have step: "onMessage c d = c\<lparr>messages := messages c @ [d]\<rparr>"
    using Cons.prems by (simp add: onMessage_def)
  have "waiters (onMessage c d) = []"
    using Cons.prems by (simp add: step)
  from Cons.IH[OF this] show ?case by (simp add: step)
qed

lemma readFrames_buffer_first:
  "readFrames (length ms + k) w (c\<lparr>messages := ms\<rparr>) =
   map (\<lambda>m. Some (Resolved (Some m))) ms @ readFrames k (w + length ms) (c\<lparr>messages := []\<rparr>)"
proof (induction ms arbitrary: w)
  case Nil
  then show ?case by simp
next
  case (Cons m ms)
  show ?case using Cons.IH[of "Suc w"] by (simp add: nextFrameInternal_def)
qed

text \<open>
  C10. Frames that reached the connection before it closed or failed are still handed out
  afterwards, oldest first; only when the buffer is empty does a read give the \<^verbatim>\<open>null\<close>
  sentinel (clean close) or the recorded error (socket error).
\<close>

theorem buffered_frames_survive_close_and_error:
  assumes "waiters c = []" and "error c = None"
  shows "readFrames (length (messages c @ ds) + 1) w (onClose (onMessages c ds)) =
           map (\<lambda>m. Some (Resolved (Some m))) (messages c @ ds) @ [Some (Resolved None)]
       \<and> readFrames (length (messages c @ ds) + 1) w (onError (onMessages c ds) ev) =
           map (\<lambda>m. Some (Resolved (Some m))) (messages c @ ds) @ [Some (Rejected (errorOfEvent ev))]"
proof -
  let ?b = "messages c @ ds"
  have buf: "onMessages c ds = c\<lparr>messages := ?b\<rparr>"
    using assms(1) by (rule onMessages_buffers)
  have cl: "onClose (onMessages c ds) =
              (c\<lparr>closed := True, closedResolved := True\<rparr>)\<lparr>messages := ?b\<rparr>"
    using assms(1) by (simp add: buf onClose_def)
  have er: "onError (onMessages c ds) ev =
              (c\<lparr>error := Some (errorOfEvent ev)\<rparr>)\<lparr>messages := ?b\<rparr>"
    using assms(1) by (simp add: buf onError_def Let_def)
  have "readFrames (length ?b + 1) w (onClose (onMessages c ds)) =
          map (\<lambda>m. Some (Resolved (Some m))) ?b @ [Some (Resolved None)]"
    unfolding cl readFrames_buffer_first
    using assms(2) by (simp add: nextFrameInternal_def)
  moreover have "readFrames (length ?b + 1) w (onError (onMessages c ds) ev) =
          map (\<lambda>m. Some (Resolved (Some m))) ?b @ [Some (Rejected (errorOfEvent ev))]"
    unfolding er readFrames_buffer_first
    by (simp add: nextFrameInternal_def)
  ultimately show ?thesis by simp
qed

theorem buffered_frames_survive_close_and_error_witness:
  "readFrames 3 0 (onClose (onMessages newConnection [''a'', ''b''])) =
     [Some (Resolved (Some ''a'')), Some (Resolved (Some ''b'')), Some (Resolved None)]
   \<and> readFrames 3 0 (onError (onMessages newConnection [''a'', ''b''])
                        \<lparr>ev_error = None, ev_message = Some ''boom''\<rparr>) =
     [Some (Resolved (Some ''a'')), Some (Resolved (Some ''b'')),
      Some (Rejected (newError ''boom''))]"
proof -
  have w: "waiters newConnection = []" and e: "error newConnection = None"
    by (simp_all add: newConnection_def)
  have m: "messages newConnection @ [''a'', ''b''] = [''a'', ''b'']"
    by (simp add: newConnection_def)
  show ?thesis
    using buffered_frames_survive_close_and_error[OF w e, where ds = "[''a'', ''b'']"
            and w = 0 and ev = "\<lparr>ev_error = None, ev_message = Some ''boom''\<rparr>"]
    by (simp add: m errorOfEvent_def eval_nat_numeral)
qed

section \<open>Query precedence\<close>

lemma appendQueryParamValue_append:
  "appendQueryParamValue ps k v = ps @ appendQueryParamValue [] k v"
proof (induction ps k v rule: appendQueryParamValue.induct)
  case (3 params key vs)
  have gen: "\<And>ps. set ws \<subseteq> set vs \<Longrightarrow> fold (\<lambda>v ps. appendQueryParamValue ps (key @ ''[]'') v) ws ps =
        ps @ fold (\<lambda>v ps. appendQueryParamValue ps (key @ ''[]'') v) ws []" for ws
  proof (induction ws rule: rev_induct)
    case Nil
    then show ?case by simp
  next
    case (snoc w ws)
    have w: "w \<in> set vs" using snoc.prems by simp
    have a: "appendQueryParamValue qs (key @ ''[]'') w = qs @ appendQueryParamValue [] (key @ ''[]'') w" for qs
      using "3.IH"[OF w, of qs] by simp
    let ?f = "\<lambda>v ps. appendQueryParamValue ps (key @ ''[]'') v"
    have ih: "fold ?f ws ps = ps @ fold ?f ws []" using snoc.IH[of ps] snoc.prems by simp
    have "fold ?f (ws @ [w]) ps = fold ?f ws ps @ appendQueryParamValue [] (key @ ''[]'') w"
      using a[of "fold ?f ws ps"] by simp
    also have "\<dots> = ps @ (fold ?f ws [] @ appendQueryParamValue [] (key @ ''[]'') w)"
      using ih by simp
    also have "fold ?f ws [] @ appendQueryParamValue [] (key @ ''[]'') w = fold ?f (ws @ [w]) []"
      using a[of "fold ?f ws []"] by simp
    finally show ?case .
  qed
  show ?case using gen[of vs params] by simp
next
  case (4 params key es)
  have gen: "\<And>ps. set ws \<subseteq> set es \<Longrightarrow>
        fold (\<lambda>(nk, nv) ps. appendQueryParamValue ps (key @ ''['' @ nk @ '']'') nv) ws ps =
        ps @ fold (\<lambda>(nk, nv) ps. appendQueryParamValue ps (key @ ''['' @ nk @ '']'') nv) ws []" for ws
  proof (induction ws rule: rev_induct)
    case Nil
    then show ?case by simp
  next
    case (snoc w ws)
    obtain nk nv where weq: "w = (nk, nv)" by (cases w)
    have w: "(nk, nv) \<in> set es" using snoc.prems weq by simp
    have a: "appendQueryParamValue qs (key @ ''['' @ nk @ '']'') nv
             = qs @ appendQueryParamValue [] (key @ ''['' @ nk @ '']'') nv" for qs
      using "4.IH"[OF w refl, of qs] by simp
    let ?f = "\<lambda>(nk, nv) ps. appendQueryParamValue ps (key @ ''['' @ nk @ '']'') nv"
    let ?w = "appendQueryParamValue [] (key @ ''['' @ nk @ '']'') nv"
    have ih: "fold ?f ws ps = ps @ fold ?f ws []" using snoc.IH[of ps] snoc.prems by simp
    have "fold ?f (ws @ [w]) ps = fold ?f ws ps @ ?w"
      using a[of "fold ?f ws ps"] by (simp add: weq)
    also have "\<dots> = ps @ (fold ?f ws [] @ ?w)"
      using ih by simp
    also have "fold ?f ws [] @ ?w = fold ?f (ws @ [w]) []"
      using a[of "fold ?f ws []"] by (simp add: weq)
    finally show ?case .
  qed
  show ?case using gen[of es params] by simp
qed simp_all

lemma fold_set_bound:
  assumes "\<And>x ps. x \<in> set xs \<Longrightarrow> set (f x ps) \<subseteq> set ps \<union> S"
  shows "set (fold f xs ps) \<subseteq> set ps \<union> S"
  using assms
proof (induction xs arbitrary: ps)
  case Nil
  then show ?case by simp
next
  case (Cons x xs)
  have "set (fold f xs (f x ps)) \<subseteq> set (f x ps) \<union> S"
    using Cons.IH[of "f x ps"] Cons.prems by simp
  moreover have "set (f x ps) \<subseteq> set ps \<union> S" using Cons.prems[of x ps] by simp
  ultimately show ?case by auto
qed

lemma matchesQueryKey_nested:
  "matchesQueryKey (k @ CHR ''['' # rest) k' \<Longrightarrow> matchesQueryKey k k'"
  by (auto simp: matchesQueryKey_def startsWith_def prefix_def)

lemma appendQueryParamValue_keys_bound:
  "set (appendQueryParamValue ps k v) \<subseteq> set ps \<union> {p. matchesQueryKey k (fst p)}"
proof (induction ps k v rule: appendQueryParamValue.induct)
  case (3 params key vs)
  have "set (fold (\<lambda>v ps. appendQueryParamValue ps (key @ ''[]'') v) vs params)
          \<subseteq> set params \<union> {p. matchesQueryKey key (fst p)}"
  proof (rule fold_set_bound)
    fix x ps assume x: "x \<in> set vs"
    have "set (appendQueryParamValue ps (key @ ''[]'') x)
            \<subseteq> set ps \<union> {p. matchesQueryKey (key @ ''[]'') (fst p)}"
      using "3.IH"[OF x] .
    moreover have "{p. matchesQueryKey (key @ ''[]'') (fst p)} \<subseteq> {p. matchesQueryKey key (fst p)}"
      using matchesQueryKey_nested[of key "'']''"] by auto
    ultimately show "set (appendQueryParamValue ps (key @ ''[]'') x)
            \<subseteq> set ps \<union> {p. matchesQueryKey key (fst p)}" by blast
  qed
  then show ?case by simp
next
  case (4 params key es)
  have "set (fold (\<lambda>(nk, nv) ps. appendQueryParamValue ps (key @ ''['' @ nk @ '']'') nv) es params)
          \<subseteq> set params \<union> {p. matchesQueryKey key (fst p)}"
  proof (rule fold_set_bound)
    fix x ps assume x: "x \<in> set es"
    obtain nk nv where xeq: "x = (nk, nv)" by (cases x)
    have "set (appendQueryParamValue ps (key @ ''['' @ nk @ '']'') nv)
            \<subseteq> set ps \<union> {p. matchesQueryKey (key @ ''['' @ nk @ '']'') (fst p)}"
      using "4.IH"[of "(nk, nv)" nk nv ps] x xeq by simp
    moreover have "{p. matchesQueryKey (key @ ''['' @ nk @ '']'') (fst p)}
                     \<subseteq> {p. matchesQueryKey key (fst p)}"
      using matchesQueryKey_nested[of key "nk @ '']''"] by auto
    ultimately show "set ((case x of (nk, nv) \<Rightarrow> \<lambda>ps. appendQueryParamValue ps (key @ ''['' @ nk @ '']'') nv) ps)
            \<subseteq> set ps \<union> {p. matchesQueryKey key (fst p)}" by (simp add: xeq) blast
  qed
  then show ?case by simp
qed (auto simp: matchesQueryKey_def)

lemma filter_deleteMatching_commute:
  "filter P (deleteMatching k ps) = deleteMatching k (filter P ps)"
  by (induction ps) (auto simp: deleteMatching_def)

lemma mergeQueryParam_unfold:
  "mergeQueryParam (k, v) ps =
     (if v = Undefined then ps else deleteMatching k ps @ appendQueryParamValue [] k v)"
  using appendQueryParamValue_append[of "deleteMatching k ps" k v]
  by (simp add: mergeQueryParam_def)

lemma mergeQueryParam_filter_cong:
  assumes "filter P ps1 = filter P ps2"
  shows "filter P (mergeQueryParam kv ps1) = filter P (mergeQueryParam kv ps2)"
proof -
  obtain k v where kv: "kv = (k, v)" by (cases kv)
  show ?thesis using assms
    by (simp add: kv mergeQueryParam_unfold filter_deleteMatching_commute)
qed

lemma fold_mergeQueryParam_filter_cong:
  "filter P ps1 = filter P ps2 \<Longrightarrow>
   filter P (fold mergeQueryParam q ps1) = filter P (fold mergeQueryParam q ps2)"
proof (induction q arbitrary: ps1 ps2)
  case Nil
  then show ?case by simp
next
  case (Cons kv q)
  show ?case using Cons.IH[OF mergeQueryParam_filter_cong[OF Cons.prems, of kv]] by simp
qed

lemma deleteMatching_family_empty:
  "filter (\<lambda>p. matchesQueryKey k (fst p)) (deleteMatching k ps) = []"
  by (induction ps) (auto simp: deleteMatching_def)

lemma mergeQueryParam_family:
  "v \<noteq> Undefined \<Longrightarrow>
   filter (\<lambda>p. matchesQueryKey k (fst p)) (mergeQueryParam (k, v) ps) =
   filter (\<lambda>p. matchesQueryKey k (fst p)) (appendQueryParamValue [] k v)"
  by (simp add: mergeQueryParam_unfold deleteMatching_family_empty)

lemma fold_mergeQueryParam_family:
  "(k, v) \<in> set q \<Longrightarrow> v \<noteq> Undefined \<Longrightarrow>
   filter (\<lambda>p. matchesQueryKey k (fst p)) (fold mergeQueryParam q ps1) =
   filter (\<lambda>p. matchesQueryKey k (fst p)) (fold mergeQueryParam q ps2)"
proof (induction q arbitrary: ps1 ps2)
  case Nil
  then show ?case by simp
next
  case (Cons kv q)
  show ?case
  proof (cases "kv = (k, v)")
    case True
    have "filter (\<lambda>p. matchesQueryKey k (fst p)) (mergeQueryParam kv ps1) =
          filter (\<lambda>p. matchesQueryKey k (fst p)) (mergeQueryParam kv ps2)"
      using Cons.prems(2) by (simp add: True mergeQueryParam_family)
    from fold_mergeQueryParam_filter_cong[OF this] show ?thesis by simp
  next
    case False
    then have "(k, v) \<in> set q" using Cons.prems(1) by simp
    from Cons.IH[OF this Cons.prems(2)] show ?thesis by simp
  qed
qed

lemma bracket_free_not_matched:
  "CHR ''['' \<notin> set k \<Longrightarrow> k2 \<noteq> k \<Longrightarrow> \<not> matchesQueryKey k2 k"
  by (auto simp: matchesQueryKey_def startsWith_def prefix_def)

lemma appendQueryParamValue_other_key:
  assumes "CHR ''['' \<notin> set k" "k2 \<noteq> k"
  shows "filter (\<lambda>p. fst p = k) (appendQueryParamValue [] k2 v) = []"
proof -
  have "\<forall>p \<in> set (appendQueryParamValue [] k2 v). matchesQueryKey k2 (fst p)"
    using appendQueryParamValue_keys_bound[of "[]" k2 v] by auto
  then have "\<forall>p \<in> set (appendQueryParamValue [] k2 v). fst p \<noteq> k"
    using bracket_free_not_matched[OF assms] by auto
  then show ?thesis by (simp add: filter_empty_conv)
qed

lemma deleteMatching_other_key:
  assumes "CHR ''['' \<notin> set k" "k2 \<noteq> k"
  shows "filter (\<lambda>p. fst p = k) (deleteMatching k2 ps) = filter (\<lambda>p. fst p = k) ps"
  using bracket_free_not_matched[OF assms]
  by (induction ps) (auto simp: deleteMatching_def)

lemma mergeQueryParam_other_key:
  assumes "CHR ''['' \<notin> set k" "k2 \<noteq> k"
  shows "filter (\<lambda>p. fst p = k) (mergeQueryParam (k2, v2) ps) = filter (\<lambda>p. fst p = k) ps"
  by (simp add: mergeQueryParam_unfold deleteMatching_other_key[OF assms]
        appendQueryParamValue_other_key[OF assms])

lemma fold_mergeQueryParam_other_keys:
  "CHR ''['' \<notin> set k \<Longrightarrow> k \<notin> fst ` set q \<Longrightarrow>
   filter (\<lambda>p. fst p = k) (fold mergeQueryParam q ps) = filter (\<lambda>p. fst p = k) ps"
proof (induction q arbitrary: ps)
  case Nil
  then show ?case by simp
next
  case (Cons kv q)
  obtain k2 v2 where kv: "kv = (k2, v2)" by (cases kv)
  have ne: "k2 \<noteq> k" using Cons.prems(2) kv by auto
  have "k \<notin> fst ` set q" using Cons.prems(2) by auto
  from Cons.IH[OF Cons.prems(1) this, of "mergeQueryParam kv ps"]
  show ?case by (simp add: kv mergeQueryParam_other_key[OF Cons.prems(1) ne])
qed

lemma deleteMatching_exact_empty:
  "filter (\<lambda>p. fst p = k) (deleteMatching k ps) = []"
  by (induction ps) (auto simp: deleteMatching_def matchesQueryKey_def)

lemma fold_mergeQueryParam_exact:
  "distinct (map fst q) \<Longrightarrow> (k, v) \<in> set q \<Longrightarrow> v \<noteq> Undefined \<Longrightarrow> CHR ''['' \<notin> set k \<Longrightarrow>
   filter (\<lambda>p. fst p = k) (fold mergeQueryParam q ps) =
   filter (\<lambda>p. fst p = k) (appendQueryParamValue [] k v)"
proof (induction q arbitrary: ps)
  case Nil
  then show ?case by simp
next
  case (Cons kv q)
  show ?case
  proof (cases "kv = (k, v)")
    case True
    have notin: "k \<notin> fst ` set q" using Cons.prems(1) True by auto
    have "filter (\<lambda>p. fst p = k) (fold mergeQueryParam q (mergeQueryParam kv ps)) =
          filter (\<lambda>p. fst p = k) (mergeQueryParam kv ps)"
      by (rule fold_mergeQueryParam_other_keys[OF Cons.prems(4) notin])
    also have "\<dots> = filter (\<lambda>p. fst p = k) (appendQueryParamValue [] k v)"
      using Cons.prems(3) by (simp add: True mergeQueryParam_unfold deleteMatching_exact_empty)
    finally show ?thesis by simp
  next
    case False
    then have mem: "(k, v) \<in> set q" using Cons.prems(2) by simp
    obtain k2 v2 where kv: "kv = (k2, v2)" by (cases kv)
    have "k \<in> fst ` set q" using mem by force
    then have ne: "k2 \<noteq> k" using Cons.prems(1) kv by auto
    have d: "distinct (map fst q)" using Cons.prems(1) by simp
    from Cons.IH[OF d mem Cons.prems(3) Cons.prems(4), of "mergeQueryParam kv ps"]
    show ?thesis by simp
  qed
qed

text \<open>
  C9. When a bracket-free key of the per-request extra query has a value (anything but
  \<^verbatim>\<open>undefined\<close>), the final URL holds under exactly that key only what the per-request value
  produces, and under that key and its bracket sub-keys (\<^verbatim>\<open>key[...]\<close>) only what the
  per-request query produces: whatever the client's default query and the explicit base
  URL supplied for them is gone.
\<close>

theorem per_request_query_value_wins:
  assumes "prepareWebSocketURL cfg (Some perRequestQuery) = Inr u"
      and "(key, v) \<in> set perRequestQuery" and "v \<noteq> Undefined"
      and "distinct (map fst perRequestQuery)" and "CHR ''['' \<notin> set key"
  shows "filter (\<lambda>p. fst p = key) (searchParams u) =
           filter (\<lambda>p. fst p = key) (appendQueryParamValue [] key v)
       \<and> filter (\<lambda>p. matchesQueryKey key (fst p)) (searchParams u) =
           filter (\<lambda>p. matchesQueryKey key (fst p)) (mergeQueryParamsIntoURL [] (Some perRequestQuery))
       \<and> (\<forall>s. v = Str s \<longrightarrow> filter (\<lambda>p. fst p = key) (searchParams u) = [(key, s)])"
proof -
  obtain base where u: "searchParams u = fold mergeQueryParam perRequestQuery base"
    using assms(1)
    by (auto simp: prepareWebSocketURL_def mergeQueryParamsIntoURL_def Let_def
             split: sum.splits option.splits)
  have exact: "filter (\<lambda>p. fst p = key) (searchParams u) =
               filter (\<lambda>p. fst p = key) (appendQueryParamValue [] key v)"
    unfolding u by (rule fold_mergeQueryParam_exact[OF assms(4) assms(2) assms(3) assms(5)])
  have family: "filter (\<lambda>p. matchesQueryKey key (fst p)) (searchParams u) =
           filter (\<lambda>p. matchesQueryKey key (fst p)) (mergeQueryParamsIntoURL [] (Some perRequestQuery))"
    unfolding u mergeQueryParamsIntoURL_def
    using fold_mergeQueryParam_family[OF assms(2) assms(3)] by simp
  have "\<forall>s. v = Str s \<longrightarrow> filter (\<lambda>p. fst p = key) (searchParams u) = [(key, s)]"
    using exact by simp
  with exact family show ?thesis by blast
qed

theorem per_request_query_value_wins_witness:
  "prepareWebSocketURL exampleUrlConfig (Some [(''tenant'', Str ''request'')]) =
     Inr \<lparr> protocol = ''wss:'', host = ''proxy.example.test'', pathname = ''/v1/responses'',
           searchParams = [(''client_param'', ''client''), (''base_param'', ''1''),
                           (''tenant'', ''request'')] \<rparr>
   \<and> filter (\<lambda>p. fst p = ''tenant'')
        [(''client_param'', ''client''), (''base_param'', ''1''), (''tenant'', ''request'')] =
      [(''tenant'', ''request'')]"
proof -
  let ?u = "\<lparr> protocol = ''wss:'', host = ''proxy.example.test'', pathname = ''/v1/responses'',
               searchParams = [(''client_param'', ''client''), (''base_param'', ''1''),
                               (''tenant'', ''request'')] \<rparr>"
  have h1: "prepareWebSocketURL exampleUrlConfig (Some [(''tenant'', Str ''request'')]) = Inr ?u"
    by (simp add: prepareWebSocketURL_def exampleUrlConfig_def upgradeProtocol_def
          mergeQueryParamsIntoURL_def mergeQueryParam_def deleteMatching_def
          matchesQueryKey_def startsWith_def mergeExplicitBaseQuery_def setAdd_def
          topLevelKey_def ensureResponsesWebSocketPath_def stripTrailingSlashes_def
          suffix_def Let_def)
  have h2: "(''tenant'', Str ''request'') \<in> set [(''tenant'', Str ''request'')]" by simp
  have h3: "Str ''request'' \<noteq> Undefined" by simp
  have h4: "distinct (map fst [(''tenant'', Str ''request'')])" by simp
  have h5: "CHR ''['' \<notin> set ''tenant''" by simp
  from per_request_query_value_wins[OF h1 h2 h3 h4 h5] h1 show ?thesis by simp
qed

section \<open>Header layers\<close>

lemma update_set_bound: "set (AList.update k v al) \<subseteq> insert (k, v) (set al)"
  by (induction al) auto

lemma delete_set_bound: "set (AList.delete k al) \<subseteq> set al"
  by (induction al) auto

lemma hdr_inv_create: "hdr_inv createHeaderAccumulator"
  by (simp add: hdr_inv_def createHeaderAccumulator_def)

lemma hdr_inv_unsetHeader: "hdr_inv acc \<Longrightarrow> hdr_inv (unsetHeader n acc)"
  using delete_set_bound[of n "valuesByLowercaseName acc"]
  by (auto simp: hdr_inv_def unsetHeader_def distinct_delete list_all_iff)

lemma hdr_inv_setHeader: "hdr_inv acc \<Longrightarrow> hdr_inv (setHeader a kv acc)"
  using update_set_bound[of "toLowerCase (fst kv)" kv "valuesByLowercaseName acc"]
  by (auto simp: hdr_inv_def setHeader_def Let_def distinct_update list_all_iff)

lemma hdr_inv_fold_unset: "hdr_inv acc \<Longrightarrow> hdr_inv (fold unsetHeader ns acc)"
  by (induction ns arbitrary: acc) (simp_all add: hdr_inv_unsetHeader)

lemma hdr_inv_fold_set: "hdr_inv acc \<Longrightarrow> hdr_inv (fold (setHeader a) es acc)"
  by (induction es arbitrary: acc) (simp_all add: hdr_inv_setHeader)

lemma hdr_inv_apply: "hdr_inv acc \<Longrightarrow> hdr_inv (applyHeadersToAccumulator acc h a)"
  by (simp add: applyHeadersToAccumulator_def Let_def hdr_inv_fold_unset hdr_inv_fold_set)

lemma hdr_inv_applyLayers: "hdr_inv acc \<Longrightarrow> hdr_inv (applyLayers acc ls)"
proof (induction ls arbitrary: acc)
  case Nil
  then show ?case by (simp add: applyLayers_def)
next
  case (Cons l ls)
  obtain h a where l: "l = (h, a)" by (cases l)
  have "hdr_inv (applyHeadersToAccumulator acc h a)" using Cons.prems by (rule hdr_inv_apply)
  from Cons.IH[OF this] show ?case by (simp add: applyLayers_def l)
qed

lemma applyLayers_append:
  "applyLayers acc (xs @ ys) = applyLayers (applyLayers acc xs) ys"
  by (simp add: applyLayers_def)

lemma applyLayers_Cons:
  "applyLayers acc ((h, a) # ys) = applyLayers (applyHeadersToAccumulator acc h a) ys"
  by (simp add: applyLayers_def)

lemma blockedAbsent_after_unset: "blockedAbsent n (unsetHeader n acc)"
  by (auto simp: blockedAbsent_def unsetHeader_def setAdd_def AList.delete_eq)

lemma blockedAbsent_unsetHeader: "blockedAbsent n acc \<Longrightarrow> blockedAbsent n (unsetHeader m acc)"
  by (auto simp: blockedAbsent_def unsetHeader_def setAdd_def AList.delete_eq)

lemma blockedAbsent_fold_unset:
  "blockedAbsent n acc \<or> n \<in> set ns \<Longrightarrow> blockedAbsent n (fold unsetHeader ns acc)"
proof (induction ns arbitrary: acc)
  case Nil
  then show ?case by simp
next
  case (Cons m ns)
  have "blockedAbsent n (unsetHeader m acc) \<or> n \<in> set ns"
    using Cons.prems blockedAbsent_after_unset[of n acc] blockedAbsent_unsetHeader[of n acc m]
    by auto
  from Cons.IH[OF this] show ?case by simp
qed

lemma blockedAbsent_setHeader:
  "blockedAbsent n acc \<Longrightarrow> \<not> a \<or> toLowerCase (fst kv) \<noteq> n \<Longrightarrow> blockedAbsent n (setHeader a kv acc)"
  using update_set_bound[of "toLowerCase (fst kv)" kv "valuesByLowercaseName acc"]
  by (auto simp: blockedAbsent_def setHeader_def Let_def)

lemma blockedAbsent_fold_set:
  "blockedAbsent n acc \<Longrightarrow> \<not> a \<or> n \<notin> toLowerCase ` fst ` set es \<Longrightarrow>
   blockedAbsent n (fold (setHeader a) es acc)"
proof (induction es arbitrary: acc)
  case Nil
  then show ?case by simp
next
  case (Cons kv es)
  have "blockedAbsent n (setHeader a kv acc)"
    using Cons.prems by (intro blockedAbsent_setHeader) auto
  moreover have "\<not> a \<or> n \<notin> toLowerCase ` fst ` set es" using Cons.prems(2) by auto
  ultimately show ?case using Cons.IH by simp
qed

lemma blockedAbsent_apply_unsetting:
  "n \<in> set (unsetLowercaseNames (parseHeaderInput h)) \<Longrightarrow>
   \<not> a \<or> n \<notin> toLowerCase ` fst ` set (entries (parseHeaderInput h)) \<Longrightarrow>
   blockedAbsent n (applyHeadersToAccumulator acc h a)"
  by (simp add: applyHeadersToAccumulator_def Let_def blockedAbsent_fold_set blockedAbsent_fold_unset)

lemma record_set_bound:
  "set (fold (\<lambda>(key, v) headers. AList.update key v headers) xs hs) \<subseteq> set hs \<union> set xs"
proof (induction xs arbitrary: hs)
  case Nil
  then show ?case by simp
next
  case (Cons x xs)
  obtain k v where x: "x = (k, v)" by (cases x)
  show ?case using Cons.IH[of "AList.update k v hs"] update_set_bound[of k v hs]
    by (auto simp: x)
qed

lemma record_absent:
  assumes "hdr_inv acc" "n \<notin> fst ` set (valuesByLowercaseName acc)"
  shows "n \<notin> toLowerCase ` fst ` set (headerAccumulatorToRecord acc)"
proof
  assume "n \<in> toLowerCase ` fst ` set (headerAccumulatorToRecord acc)"
  then obtain k v where kv: "(k, v) \<in> set (headerAccumulatorToRecord acc)" "toLowerCase k = n"
    by auto
  then have "(k, v) \<in> set (map snd (valuesByLowercaseName acc))"
    using record_set_bound[of "map snd (valuesByLowercaseName acc)" "[]"]
    by (auto simp: headerAccumulatorToRecord_def)
  then obtain lk where e: "(lk, (k, v)) \<in> set (valuesByLowercaseName acc)" by auto
  then have "lk = toLowerCase k" using assms(1) by (auto simp: hdr_inv_def list_all_iff)
  then show False using e kv(2) assms(2) by force
qed

lemma blockedAbsent_applyLayers_gen:
  "blockedAbsent n acc \<Longrightarrow>
   list_all (\<lambda>l. \<not> snd l \<or> n \<notin> toLowerCase ` fst ` set (entries (parseHeaderInput (fst l)))) ls \<Longrightarrow>
   blockedAbsent n (applyLayers acc ls)"
proof (induction ls arbitrary: acc)
  case Nil
  then show ?case by (simp add: applyLayers_def)
next
  case (Cons l ls)
  obtain h a where l: "l = (h, a)" by (cases l)
  have c: "\<not> a \<or> n \<notin> toLowerCase ` fst ` set (entries (parseHeaderInput h))"
    using Cons.prems(2) l by simp
  have "blockedAbsent n (applyHeadersToAccumulator acc h a)"
    using Cons.prems(1) c
    by (simp add: applyHeadersToAccumulator_def Let_def blockedAbsent_fold_set blockedAbsent_fold_unset)
  from Cons.IH[OF this] Cons.prems(2) show ?case by (simp add: applyLayers_Cons l)
qed

lemma update_fresh: "k \<notin> fst ` set al \<Longrightarrow> AList.update k v al = al @ [(k, v)]"
  by (induction al) auto

lemma record_of_distinct:
  "distinct (map fst (hs @ xs)) \<Longrightarrow>
   fold (\<lambda>(key, v) headers. AList.update key v headers) xs hs = hs @ xs"
proof (induction xs arbitrary: hs)
  case Nil
  then show ?case by simp
next
  case (Cons x xs)
  obtain k v where x: "x = (k, v)" by (cases x)
  have fresh: "k \<notin> fst ` set hs" using Cons.prems x by auto
  have "distinct (map fst ((hs @ [(k, v)]) @ xs))" using Cons.prems x by simp
  from Cons.IH[OF this] show ?case by (simp add: x update_fresh[OF fresh])
qed

lemma hdr_inv_record:
  assumes "hdr_inv acc"
  shows "headerAccumulatorToRecord acc = map snd (valuesByLowercaseName acc)"
proof -
  let ?vs = "valuesByLowercaseName acc"
  have eq: "map fst ?vs = map toLowerCase (map fst (map snd ?vs))"
    using assms by (auto simp: hdr_inv_def list_all_iff)
  have "distinct (map toLowerCase (map fst (map snd ?vs)))"
    using assms eq by (simp add: hdr_inv_def)
  then have "distinct (map fst (map snd ?vs))"
    using distinct_map[of toLowerCase "map fst (map snd ?vs)"] by blast
  then show ?thesis
    using record_of_distinct[of "[]" "map snd ?vs"] by (simp add: headerAccumulatorToRecord_def)
qed

lemma filter_key_of_distinct:
  "distinct (map fst al) \<Longrightarrow> map_of al n = Some x \<Longrightarrow> filter (\<lambda>e. fst e = n) al = [(n, x)]"
proof (induction al)
  case Nil
  then show ?case by simp
next
  case (Cons e al)
  show ?case
  proof (cases "fst e = n")
    case True
    then have "n \<notin> fst ` set al" using Cons.prems(1) by auto
    then have "filter (\<lambda>e. fst e = n) al = []" by (auto simp: filter_empty_conv)
    then show ?thesis using True Cons.prems(2) by (cases e) auto
  next
    case False
    then show ?thesis using Cons by (cases e) auto
  qed
qed

lemma hdr_inv_record_filter:
  assumes "hdr_inv acc" "map_of (valuesByLowercaseName acc) n = Some kv"
  shows "filter (\<lambda>p. toLowerCase (fst p) = n) (headerAccumulatorToRecord acc) = [kv]"
proof -
  let ?vs = "valuesByLowercaseName acc"
  have "filter (\<lambda>p. toLowerCase (fst p) = n) (map snd ?vs) =
        map snd (filter (\<lambda>e. fst e = n) ?vs)"
    using assms(1) by (auto simp: hdr_inv_def list_all_iff filter_map comp_def intro!: arg_cong[where f="map snd"] filter_cong)
  also have "\<dots> = [kv]"
    using filter_key_of_distinct[OF _ assms(2)] assms(1) by (simp add: hdr_inv_def)
  finally show ?thesis by (simp add: hdr_inv_record[OF assms(1)])
qed

lemma setHeader_override_sets:
  "map_of (valuesByLowercaseName (setHeader True kv acc)) (toLowerCase (fst kv)) = Some kv"
  by (simp add: setHeader_def Let_def update_conv')

lemma setHeader_other_name:
  "toLowerCase (fst kv) \<noteq> n \<Longrightarrow>
   map_of (valuesByLowercaseName (setHeader a kv acc)) n = map_of (valuesByLowercaseName acc) n"
  by (simp add: setHeader_def Let_def update_conv')

lemma fold_setHeader_other_names:
  "n \<notin> toLowerCase ` fst ` set es \<Longrightarrow>
   map_of (valuesByLowercaseName (fold (setHeader a) es acc)) n = map_of (valuesByLowercaseName acc) n"
proof (induction es arbitrary: acc)
  case Nil
  then show ?case by simp
next
  case (Cons kv es)
  have 1: "toLowerCase (fst kv) \<noteq> n" and 2: "n \<notin> toLowerCase ` fst ` set es"
    using Cons.prems by auto
  show ?case using Cons.IH[OF 2, of "setHeader a kv acc"] setHeader_other_name[OF 1, of a acc]
    by simp
qed

lemma override_layer_sets:
  assumes "entries (parseHeaderInput later) = es1 @ (k, v) # es2"
      and "toLowerCase k \<notin> toLowerCase ` fst ` set es2"
  shows "map_of (valuesByLowercaseName (applyHeadersToAccumulator acc later True)) (toLowerCase k)
           = Some (k, v)"
proof -
  let ?a0 = "fold unsetHeader (unsetLowercaseNames (parseHeaderInput later)) acc"
  let ?a1 = "fold (setHeader True) es1 ?a0"
  have "applyHeadersToAccumulator acc later True =
          fold (setHeader True) es2 (setHeader True (k, v) ?a1)"
    by (simp add: applyHeadersToAccumulator_def Let_def assms(1))
  then show ?thesis
    using fold_setHeader_other_names[OF assms(2), of True "setHeader True (k, v) ?a1"]
          setHeader_override_sets[of "(k, v)" ?a1]
    by simp
qed

lemma webSocketHeaderLayers_shape:
  "\<exists>ls. webSocketHeaderLayers client H extra = ls @ [(extra, True)] \<and> list_all (\<lambda>l. \<not> snd l) ls"
  by (auto simp: webSocketHeaderLayers_def split: option.splits jsval.splits)

text \<open>
  C8 (as the code has it). A \<^verbatim>\<open>null\<close> in any layer of \<^verbatim>\<open>#mergeWebSocketHeaders\<close> unsets the
  header whatever its spelling: unless the per-request extra headers name it, no header
  with that lower-cased name is in the merged result. The per-request extra headers, the
  one layer applied with \<^verbatim>\<open>allowBlockedOverride\<close>, do re-set it: the last entry they have
  for a name is the only header of that name in the result.
\<close>

theorem null_unsets_until_request_override:
  "((h, a) \<in> set (webSocketHeaderLayers client H perRequestHeaders)
      \<and> n \<in> set (unsetLowercaseNames (parseHeaderInput h))
      \<and> n \<notin> toLowerCase ` fst ` set (entries (parseHeaderInput perRequestHeaders))
     \<longrightarrow> n \<notin> toLowerCase ` fst ` set (mergeWebSocketHeaders client H perRequestHeaders))
   \<and> (entries (parseHeaderInput perRequestHeaders) = es1 @ (k, v) # es2
      \<and> toLowerCase k \<notin> toLowerCase ` fst ` set es2
     \<longrightarrow> filter (\<lambda>p. toLowerCase (fst p) = toLowerCase k)
           (mergeWebSocketHeaders client H perRequestHeaders) = [(k, v)])"
proof (intro conjI impI)
  assume asm: "(h, a) \<in> set (webSocketHeaderLayers client H perRequestHeaders)
      \<and> n \<in> set (unsetLowercaseNames (parseHeaderInput h))
      \<and> n \<notin> toLowerCase ` fst ` set (entries (parseHeaderInput perRequestHeaders))"
  let ?ok = "\<lambda>l. \<not> snd l \<or> n \<notin> toLowerCase ` fst ` set (entries (parseHeaderInput (fst l)))"
  obtain ls where ls: "webSocketHeaderLayers client H perRequestHeaders = ls @ [(perRequestHeaders, True)]"
      "list_all (\<lambda>l. \<not> snd l) ls"
    using webSocketHeaderLayers_shape by blast
  have allok: "list_all ?ok (webSocketHeaderLayers client H perRequestHeaders)"
    using ls asm by (auto simp: list_all_iff)
  obtain pre post where split: "webSocketHeaderLayers client H perRequestHeaders = pre @ (h, a) # post"
    using asm by (meson split_list)
  have okh: "\<not> a \<or> n \<notin> toLowerCase ` fst ` set (entries (parseHeaderInput h))"
    and okpost: "list_all ?ok post"
    using allok unfolding split by auto
  let ?acc = "applyLayers createHeaderAccumulator pre"
  have "blockedAbsent n (applyHeadersToAccumulator ?acc h a)"
    using asm okh by (intro blockedAbsent_apply_unsetting) auto
  then have "blockedAbsent n (applyLayers (applyHeadersToAccumulator ?acc h a) post)"
    using okpost by (rule blockedAbsent_applyLayers_gen)
  then have ba: "blockedAbsent n
       (applyLayers createHeaderAccumulator (webSocketHeaderLayers client H perRequestHeaders))"
    by (simp add: split applyLayers_append applyLayers_Cons)
  have inv: "hdr_inv (applyLayers createHeaderAccumulator (webSocketHeaderLayers client H perRequestHeaders))"
    by (intro hdr_inv_applyLayers hdr_inv_create)
  show "n \<notin> toLowerCase ` fst ` set (mergeWebSocketHeaders client H perRequestHeaders)"
    unfolding mergeWebSocketHeaders_def
    using record_absent[OF inv] ba by (simp add: blockedAbsent_def)
next
  assume asm: "entries (parseHeaderInput perRequestHeaders) = es1 @ (k, v) # es2
      \<and> toLowerCase k \<notin> toLowerCase ` fst ` set es2"
  obtain ls where ls: "webSocketHeaderLayers client H perRequestHeaders = ls @ [(perRequestHeaders, True)]"
    using webSocketHeaderLayers_shape by blast
  let ?acc = "applyLayers createHeaderAccumulator ls"
  have fin: "applyLayers createHeaderAccumulator (webSocketHeaderLayers client H perRequestHeaders)
          = applyHeadersToAccumulator ?acc perRequestHeaders True"
    by (simp add: ls applyLayers_append applyLayers_def)
  have inv: "hdr_inv (applyHeadersToAccumulator ?acc perRequestHeaders True)"
    by (intro hdr_inv_apply hdr_inv_applyLayers hdr_inv_create)
  have "map_of (valuesByLowercaseName (applyHeadersToAccumulator ?acc perRequestHeaders True)) (toLowerCase k)
           = Some (k, v)"
    using asm by (intro override_layer_sets) auto
  from hdr_inv_record_filter[OF inv this]
  show "filter (\<lambda>p. toLowerCase (fst p) = toLowerCase k)
           (mergeWebSocketHeaders client H perRequestHeaders) = [(k, v)]"
    by (simp add: mergeWebSocketHeaders_def fin)
qed

theorem null_unsets_until_request_override_witness:
  "''user-agent'' \<notin> toLowerCase ` fst ` set (mergeWebSocketHeaders azureClient sdkHEADERS FalsyHeaders)
   \<and> filter (\<lambda>p. toLowerCase (fst p) = ''user-agent'')
        (mergeWebSocketHeaders azureClient sdkHEADERS (HeaderRecord [(''user-agent'', Str ''mine'')]))
      = [(''user-agent'', ''mine'')]"
proof -
  let ?auth = "NullableHeadersLike [(''api-key'', ''azure-key'')] (Some [Str ''User-Agent''])"
  have l: "(?auth, False) \<in> set (webSocketHeaderLayers azureClient sdkHEADERS FalsyHeaders)"
    by (simp add: webSocketHeaderLayers_def azureClient_def)
  have u: "''user-agent'' \<in> set (unsetLowercaseNames (parseHeaderInput ?auth))"
    by (simp add: toLowerCase_def toLowerChar_def)
  have e: "''user-agent'' \<notin> toLowerCase ` fst ` set (entries (parseHeaderInput FalsyHeaders))"
    by simp
  have s: "entries (parseHeaderInput (HeaderRecord [(''user-agent'', Str ''mine'')])) =
             [] @ (''user-agent'', ''mine'') # []"
    by simp
  have lc: "toLowerCase ''user-agent'' = ''user-agent''"
    by (simp add: toLowerCase_def toLowerChar_def)
  have n: "toLowerCase ''user-agent'' \<notin> toLowerCase ` fst ` set []" by simp
  have 1: "''user-agent'' \<notin> toLowerCase ` fst ` set (mergeWebSocketHeaders azureClient sdkHEADERS FalsyHeaders)"
    using null_unsets_until_request_override[where h = ?auth and a = False
            and client = azureClient and H = sdkHEADERS and perRequestHeaders = FalsyHeaders
            and n = "''user-agent''"] l u e
    by blast
  have 2: "filter (\<lambda>p. toLowerCase (fst p) = toLowerCase ''user-agent'')
        (mergeWebSocketHeaders azureClient sdkHEADERS (HeaderRecord [(''user-agent'', Str ''mine'')]))
      = [(''user-agent'', ''mine'')]"
    using null_unsets_until_request_override[where client = azureClient and H = sdkHEADERS
            and perRequestHeaders = "HeaderRecord [(''user-agent'', Str ''mine'')]"
            and ?es1.0 = "[]" and k = "''user-agent''" and v = "''mine''" and ?es2.0 = "[]"] s n
    by blast
  from 1 2 show ?thesis by (simp add: lc)
qed

text \<open>
  The claim as worded fails for every layer but the last: \<^verbatim>\<open>authHeaders\<close> unsets
  \<^verbatim>\<open>User-Agent\<close>, the later \<^verbatim>\<open>HEADERS\<close> layer sets it, and the merged result has no such header.
\<close>

theorem later_layer_reset_counterexample:
  "webSocketHeaderLayers azureClient sdkHEADERS FalsyHeaders =
     [(NullableHeadersLike [(''api-key'', ''azure-key'')] (Some [Str ''User-Agent'']), False),
      (FalsyHeaders, False),
      (HeaderRecord [(''User-Agent'', Str ''Agents/JavaScript'')], False),
      (FalsyHeaders, True)]
   \<and> mergeWebSocketHeaders azureClient sdkHEADERS FalsyHeaders = [(''api-key'', ''azure-key'')]"
  by (simp add: mergeWebSocketHeaders_def webSocketHeaderLayers_def azureClient_def sdkHEADERS_def
        applyLayers_def applyHeadersToAccumulator_def createHeaderAccumulator_def
        headerAccumulatorToRecord_def unsetHeader_def setHeader_def setAdd_def truthyString_def
        toLowerCase_def toLowerChar_def Let_def)

section \<open>The outbound frame\<close>

lemma map_of_spread:
  "map_of (spread a b) x = (case map_of (rev b) x of None \<Rightarrow> map_of a x | Some v \<Rightarrow> Some v)"
proof (induction b arbitrary: a)
  case Nil
  then show ?case by (simp add: spread_def)
next
  case (Cons e b)
  obtain k v where e: "e = (k, v)" by (cases e)
  have "map_of (spread a (e # b)) x = map_of (spread (AList.update k v a) b) x"
    by (simp add: spread_def e)
  also have "\<dots> = (case map_of (rev b) x of None \<Rightarrow> map_of (AList.update k v a) x | Some w \<Rightarrow> Some w)"
    by (rule Cons.IH)
  also have "\<dots> = (case map_of (rev (e # b)) x of None \<Rightarrow> map_of a x | Some w \<Rightarrow> Some w)"
    by (simp add: e update_conv' map_add_def split: option.splits)
  finally show ?case .
qed

lemma distinct_spread: "distinct (map fst a) \<Longrightarrow> distinct (map fst (spread a b))"
proof (induction b arbitrary: a)
  case Nil
  then show ?case by (simp add: spread_def)
next
  case (Cons e b)
  obtain k v where e: "e = (k, v)" by (cases e)
  have "distinct (map fst (AList.update k v a))" using Cons.prems by (simp add: distinct_update)
  from Cons.IH[OF this] show ?case by (simp add: spread_def e)
qed

lemma distinct_requestLiteral: "distinct (map fst (requestLiteral request s rest fmt))"
  unfolding requestLiteral_def
  by (intro distinct_spread) simp

lemma distinct_withExtraBody:
  "distinct (map fst literal) \<Longrightarrow> distinct (map fst (withExtraBody body literal))"
  by (simp add: withExtraBody_def distinct_spread split: option.splits)

lemma requestData_shape:
  assumes "buildResponsesCreateRequest request s = Inr built"
      and "splitResponsesTransportOverrides (providerData request) = Inr (pd, ov)"
  shows "\<exists>literal. distinct (map fst literal) \<and>
           requestData built = spread (withExtraBody (extraBody ov) literal) [(''stream'', Bool s)]"
proof -
  let ?lit = "requestLiteral request s
                (mergeReasoning request (restWithout [''text''] pd))
                (getResponseFormat request (mergeText request (getProp pd ''text'')))"
  have "requestData built = spread (withExtraBody (extraBody ov) ?lit) [(''stream'', Bool s)]"
    using assms by (auto simp: buildResponsesCreateRequest_def Let_def split: if_splits)
  then show ?thesis using distinct_requestLiteral by blast
qed

text \<open>
  C6. Whatever the request and its provider data, the frame built for it has \<^verbatim>\<open>type\<close>
  \<^verbatim>\<open>response.create\<close> and \<^verbatim>\<open>stream\<close> \<^verbatim>\<open>true\<close>, each key once; every other key of
  \<^verbatim>\<open>extra_body\<close> is in the frame with the value \<^verbatim>\<open>extra_body\<close> gives it (\<open>map_of (rev body)\<close>:
  the last entry for a key is the one an object holds).
\<close>

theorem frame_type_and_stream_forced:
  assumes "buildResponsesCreateRequest request True = Inr built"
  shows "map_of (webSocketFrame built) ''type'' = Some (Str ''response.create'')
       \<and> map_of (webSocketFrame built) ''stream'' = Some (Bool True)
       \<and> distinct (map fst (webSocketFrame built))
       \<and> (\<forall>pd ov body k v.
            splitResponsesTransportOverrides (providerData request) = Inr (pd, ov)
            \<and> extraBody ov = Some body \<and> k \<noteq> ''type'' \<and> k \<noteq> ''stream''
            \<and> map_of (rev body) k = Some v
            \<longrightarrow> map_of (webSocketFrame built) k = Some v)"
proof -
  obtain pd ov where sp: "splitResponsesTransportOverrides (providerData request) = Inr (pd, ov)"
    using assms by (auto simp: buildResponsesCreateRequest_def split: sum.splits)
  obtain literal where lit: "distinct (map fst literal)"
    and rd: "requestData built =
               spread (withExtraBody (extraBody ov) literal) [(''stream'', Bool True)]"
    using requestData_shape[OF assms sp] by blast
  have t: "map_of (webSocketFrame built) ''type'' = Some (Str ''response.create'')"
    by (simp add: webSocketFrame_def map_of_spread)
  have st: "map_of (webSocketFrame built) ''stream'' = Some (Bool True)"
    by (simp add: webSocketFrame_def map_of_spread)
  have d: "distinct (map fst (webSocketFrame built))"
    unfolding webSocketFrame_def rd
    by (intro distinct_spread distinct_withExtraBody lit)
  have m: "map_of (webSocketFrame built) k = Some v"
    if "extraBody ov = Some body" "k \<noteq> ''type''" "k \<noteq> ''stream''" "map_of (rev body) k = Some v"
    for body k v
    using that by (simp add: webSocketFrame_def rd map_of_spread withExtraBody_def)
  show ?thesis using t st d m sp by auto
qed

theorem frame_type_and_stream_forced_witness:
  "buildResponsesCreateRequest pingRequest True = Inr pingBuilt
   \<and> map_of (webSocketFrame pingBuilt) ''type'' = Some (Str ''response.create'')
   \<and> map_of (webSocketFrame pingBuilt) ''stream'' = Some (Bool True)
   \<and> map_of (webSocketFrame pingBuilt) ''metadata'' = Some (Obj [(''transport'', Str ''ws'')])"
proof -
  let ?body = "[(''type'', Str ''user.overridden.type''), (''stream'', Bool False),
                (''metadata'', Obj [(''transport'', Str ''ws'')])]"
  let ?ov = "\<lparr> extraHeaders = None, extraQuery = None, extraBody = Some ?body \<rparr>"
  have h: "buildResponsesCreateRequest pingRequest True = Inr pingBuilt"
    by (simp add: buildResponsesCreateRequest_def pingRequest_def pingBuilt_def
          splitResponsesTransportOverrides_def isRecordLike_def snakeOrCamel_def getProp_def
          normalizeTransportOverrideMapping_def restWithout_def mergeReasoning_def mergeText_def
          requestLiteral_def withExtraBody_def spread_def shouldSendModel_def shouldSendTools_def
          shouldOmitToolChoice_def normalizeInstructions_def Let_def)
  have sp: "splitResponsesTransportOverrides (providerData pingRequest) = Inr ([], ?ov)"
    by (simp add: pingRequest_def splitResponsesTransportOverrides_def isRecordLike_def
          snakeOrCamel_def getProp_def normalizeTransportOverrideMapping_def restWithout_def
          Let_def)
  have b: "extraBody ?ov = Some ?body" by simp
  have m: "map_of (rev ?body) ''metadata'' = Some (Obj [(''transport'', Str ''ws'')])" by simp
  from frame_type_and_stream_forced[OF h] sp b m h show ?thesis by force
qed

section \<open>Function calls through the item translator\<close>

lemma map_of_restWithout:
  "map_of (restWithout keys obj) k = (if k \<in> set keys then None else map_of obj k)"
  by (induction obj) (auto simp: restWithout_def)

lemma map_of_rev_distinct:
  "distinct (map fst xs) \<Longrightarrow> map_of (rev xs) k = map_of xs k"
proof (induction xs)
  case Nil
  then show ?case by simp
next
  case (Cons x xs)
  obtain a b where x: "x = (a, b)" by (cases x)
  have ih: "map_of (rev xs) k = map_of xs k" using Cons by simp
  have na: "map_of (rev xs) a = None"
    using Cons.prems by (simp add: x map_of_eq_None_iff)
  have na2: "map_of xs a = None"
    using Cons.prems by (simp add: x map_of_eq_None_iff)
  show ?case
    using ih na na2 by (simp add: x map_add_def split: option.splits)
qed

lemma snakeCaseBag_None: "snakeCaseBag None = []"
  by (simp add: snakeCaseBag_def)

lemma snakeCaseBag_Some:
  "snakeCaseBag (Some es) =
     spread [] (map (\<lambda>(key, v). (toSnakeKey key, camelOrSnakeToSnakeCase v)) es)"
  by (simp add: snakeCaseBag_def)

lemma distinct_snakeCaseBag: "distinct (map fst (snakeCaseBag bag))"
  by (cases bag) (simp_all add: snakeCaseBag_None snakeCaseBag_Some distinct_spread)

lemma map_of_functionCallEntry:
  "map_of (functionCallEntry item) k =
     (case map_of (snakeCaseBag (itemProviderData item)) k of
        None \<Rightarrow> map_of (functionCallFields item) k
      | Some v \<Rightarrow> Some v)"
  by (simp only: functionCallEntry_def map_of_spread map_of_rev_distinct[OF distinct_snakeCaseBag])

lemma getProp_functionCallEntry:
  assumes "map_of (functionCallFields item) k = Some f"
  shows "(getProp (functionCallEntry item) k = f)
           = (map_of (snakeCaseBag (itemProviderData item)) k \<in> {None, Some f})"
  using assms by (auto simp: getProp_def map_of_functionCallEntry split: option.splits)

lemma bagKeepsFields_iff:
  "bagKeepsFields item =
     (getProp (functionCallEntry item) ''id'' = optStr (item_id item)
      \<and> getProp (functionCallEntry item) ''type'' = Str ''function_call''
      \<and> getProp (functionCallEntry item) ''name'' = Str (name item)
      \<and> getProp (functionCallEntry item) ''call_id'' = Str (callId item)
      \<and> getProp (functionCallEntry item) ''arguments'' = Str (arguments item)
      \<and> getProp (functionCallEntry item) ''status'' = optStr (status item))"
proof -
  have f: "map_of (functionCallFields item) ''id'' = Some (optStr (item_id item))"
    "map_of (functionCallFields item) ''type'' = Some (Str ''function_call'')"
    "map_of (functionCallFields item) ''name'' = Some (Str (name item))"
    "map_of (functionCallFields item) ''call_id'' = Some (Str (callId item))"
    "map_of (functionCallFields item) ''arguments'' = Some (Str (arguments item))"
    "map_of (functionCallFields item) ''status'' = Some (optStr (status item))"
    by (simp_all add: functionCallFields_def)
  show ?thesis
    unfolding getProp_functionCallEntry[OF f(1)] getProp_functionCallEntry[OF f(2)]
      getProp_functionCallEntry[OF f(3)] getProp_functionCallEntry[OF f(4)]
      getProp_functionCallEntry[OF f(5)] getProp_functionCallEntry[OF f(6)]
    by (simp add: bagKeepsFields_def functionCallFields_def)
qed

lemma convertItem_function_call:
  "(convertItem w = FunctionCallOut out) =
     (getProp w ''type'' = Str ''function_call''
      \<and> out = \<lparr> out_id = getProp w ''id'', out_callId = getProp w ''call_id'',
                out_name = getProp w ''name'', out_status = getProp w ''status'',
                out_arguments = getProp w ''arguments'',
                out_providerData = restWithout destructuredKeys w \<rparr>)"
  by (auto simp: convertItem_def)


lemma keys_spread: "fst ` set (spread a b) = fst ` set a \<union> fst ` set b"
proof -
  have "k \<in> fst ` set (spread a b) \<longleftrightarrow> k \<in> fst ` set a \<union> fst ` set b" for k
  proof -
    have "k \<in> fst ` set (spread a b) \<longleftrightarrow> map_of (spread a b) k \<noteq> None"
      by (simp add: map_of_eq_None_iff)
    also have "\<dots> \<longleftrightarrow> map_of (rev b) k \<noteq> None \<or> map_of a k \<noteq> None"
      by (simp add: map_of_spread split: option.splits)
    also have "\<dots> \<longleftrightarrow> k \<in> fst ` set b \<or> k \<in> fst ` set a"
      by (simp add: map_of_eq_None_iff)
    finally show ?thesis by blast
  qed
  then show ?thesis by blast
qed

lemma toLowerChar_not_upper: "isUpperCase c \<Longrightarrow> \<not> isUpperCase (toLowerChar c)"
  by (auto simp: isUpperCase_def toLowerChar_def)

lemma toSnakeKey_no_upper: "c \<in> set (toSnakeKey key) \<Longrightarrow> \<not> isUpperCase c"
proof (induction key)
  case Nil
  then show ?case by (simp add: toSnakeKey_def)
next
  case (Cons a key)
  have u: "\<not> isUpperCase CHR ''_''" by (simp add: isUpperCase_def)
  show ?case
    using Cons u toLowerChar_not_upper[of a]
    by (auto simp: toSnakeKey_def split: if_splits)
qed

lemma toSnakeKey_fixed: "(\<And>c. c \<in> set key \<Longrightarrow> \<not> isUpperCase c) \<Longrightarrow> toSnakeKey key = key"
proof (induction key)
  case Nil
  then show ?case by (simp add: toSnakeKey_def)
next
  case (Cons a key)
  have "toSnakeKey key = key" using Cons by simp
  moreover have "\<not> isUpperCase a" using Cons.prems by simp
  ultimately show ?case by (simp add: toSnakeKey_def)
qed

lemma toSnakeKey_idem: "toSnakeKey (toSnakeKey key) = toSnakeKey key"
  by (rule toSnakeKey_fixed) (rule toSnakeKey_no_upper)

lemma snakeCaseBag_keys: "k \<in> fst ` set (snakeCaseBag bag) \<Longrightarrow> toSnakeKey k = k"
proof (cases bag)
  case None
  assume "k \<in> fst ` set (snakeCaseBag bag)"
  then show ?thesis using None by (simp add: snakeCaseBag_None)
next
  case (Some es)
  assume "k \<in> fst ` set (snakeCaseBag bag)"
  then have "k \<in> fst ` set (map (\<lambda>(key, v). (toSnakeKey key, camelOrSnakeToSnakeCase v)) es)"
    by (simp add: Some snakeCaseBag_Some keys_spread)
  then obtain k0 where "k = toSnakeKey k0" by auto
  then show ?thesis by (simp add: toSnakeKey_idem)
qed

lemma map_of_unique:
  "(k, v) \<in> set xs \<Longrightarrow> (\<And>w. (k, w) \<in> set xs \<Longrightarrow> w = v) \<Longrightarrow> map_of xs k = Some v"
proof (induction xs)
  case Nil
  then show ?case by simp
next
  case (Cons x xs)
  obtain a b where x: "x = (a, b)" by (cases x)
  show ?case
  proof (cases "a = k")
    case True
    then have "b = v" using Cons.prems(2)[of b] by (simp add: x)
    then show ?thesis using True by (simp add: x)
  next
    case False
    then have "(k, v) \<in> set xs" using Cons.prems(1) by (simp add: x)
    moreover have "\<And>w. (k, w) \<in> set xs \<Longrightarrow> w = v" using Cons.prems(2) by simp
    ultimately have "map_of xs k = Some v" by (rule Cons.IH)
    then show ?thesis using False by (simp add: x)
  qed
qed

lemma map_of_snakeCaseBag_Some:
  "map_of (snakeCaseBag (Some es)) k =
     map_of (rev (map (\<lambda>(key, v). (toSnakeKey key, camelOrSnakeToSnakeCase v)) es)) k"
  by (simp add: snakeCaseBag_Some map_of_spread split: option.splits)

lemma snakeCaseBag_entry:
  assumes "(k, v) \<in> set es"
    and u: "\<And>k' v'. (k', v') \<in> set es \<Longrightarrow> toSnakeKey k' = toSnakeKey k \<Longrightarrow> v' = v"
  shows "map_of (snakeCaseBag (Some es)) (toSnakeKey k) = Some (camelOrSnakeToSnakeCase v)"
proof -
  let ?g = "\<lambda>(key, v). (toSnakeKey key, camelOrSnakeToSnakeCase v)"
  have "?g (k, v) \<in> set (rev (map ?g es))"
    using assms(1) by (simp only: set_rev set_map) (rule imageI)
  then have m: "(toSnakeKey k, camelOrSnakeToSnakeCase v) \<in> set (rev (map ?g es))" by simp
  have "w = camelOrSnakeToSnakeCase v" if "(toSnakeKey k, w) \<in> set (rev (map ?g es))" for w
  proof -
    from that obtain k' v' where kv: "(k', v') \<in> set es" "toSnakeKey k' = toSnakeKey k"
        "camelOrSnakeToSnakeCase v' = w"
      by auto
    from u[OF kv(1,2)] have "v' = v" .
    then show ?thesis using kv(3) by simp
  qed
  with m have "map_of (rev (map ?g es)) (toSnakeKey k) = Some (camelOrSnakeToSnakeCase v)"
    by (rule map_of_unique)
  then show ?thesis by (simp only: map_of_snakeCaseBag_Some)
qed

lemma snakeCaseBag_fixed_keys:
  assumes d: "distinct (map fst es)" and f: "\<And>k. k \<in> fst ` set es \<Longrightarrow> toSnakeKey k = k"
  shows "map_of (snakeCaseBag (Some es)) k = map_option camelOrSnakeToSnakeCase (map_of es k)"
proof -
  let ?g = "\<lambda>(key, v). (toSnakeKey key, camelOrSnakeToSnakeCase v)"
  have e: "map ?g es = map (\<lambda>(key, v). (key, camelOrSnakeToSnakeCase v)) es"
    using f by (intro map_cong refl) force
  have mf: "map fst (map ?g es) = map fst es"
    unfolding e by (induction es) auto
  have d': "distinct (map fst (map ?g es))"
    by (simp only: mf d)
  have "map_of (snakeCaseBag (Some es)) k = map_of (map ?g es) k"
    by (simp only: map_of_snakeCaseBag_Some map_of_rev_distinct[OF d'])
  also have "\<dots> = map_option camelOrSnakeToSnakeCase (map_of es k)"
    by (simp only: e map_of_map) simp
  finally show ?thesis .
qed

lemma roundtrip_decoded:
  assumes h: "bagKeepsFields item"
  shows "convertToOutputItem (getInputItems (InputItems [item])) =
           [FunctionCallOut
              \<lparr> out_id = optStr (item_id item), out_callId = Str (callId item),
                out_name = Str (name item), out_status = optStr (status item),
                out_arguments = Str (arguments item),
                out_providerData = restWithout destructuredKeys (functionCallEntry item) \<rparr>]"
  using h by (simp add: bagKeepsFields_iff convertToOutputItem_def convertItem_def)

lemma roundtrip_only_if:
  assumes "convertToOutputItem (getInputItems (InputItems [item])) = [FunctionCallOut out]"
    and "out_id out = optStr (item_id item)" and "out_callId out = Str (callId item)"
    and "out_name out = Str (name item)" and "out_arguments out = Str (arguments item)"
    and "out_status out = optStr (status item)"
  shows "bagKeepsFields item"
proof -
  have "convertItem (functionCallEntry item) = FunctionCallOut out"
    using assms(1) by (simp add: convertToOutputItem_def)
  then have t: "getProp (functionCallEntry item) ''type'' = Str ''function_call''"
    and o: "out = \<lparr> out_id = getProp (functionCallEntry item) ''id'',
                     out_callId = getProp (functionCallEntry item) ''call_id'',
                     out_name = getProp (functionCallEntry item) ''name'',
                     out_status = getProp (functionCallEntry item) ''status'',
                     out_arguments = getProp (functionCallEntry item) ''arguments'',
                     out_providerData = restWithout destructuredKeys (functionCallEntry item) \<rparr>"
    by (simp_all only: convertItem_function_call)
  have "out_id out = getProp (functionCallEntry item) ''id''"
    "out_callId out = getProp (functionCallEntry item) ''call_id''"
    "out_name out = getProp (functionCallEntry item) ''name''"
    "out_status out = getProp (functionCallEntry item) ''status''"
    "out_arguments out = getProp (functionCallEntry item) ''arguments''"
    by (subst o, simp)+
  with assms(2-6) t show ?thesis by (simp add: bagKeepsFields_iff)
qed

lemma decoded_bag_map:
  "map_of (restWithout destructuredKeys (functionCallEntry item)) k =
     (if k \<in> set destructuredKeys then None
      else case map_of (snakeCaseBag (itemProviderData item)) k of
             Some v \<Rightarrow> Some v
           | None \<Rightarrow> map_of (functionCallFields item) k)"
  by (simp add: map_of_restWithout map_of_functionCallEntry split: option.splits)

lemma functionCallFields_keys: "k \<in> fst ` set (functionCallFields item) \<Longrightarrow> toSnakeKey k = k"
  by (auto simp: functionCallFields_def toSnakeKey_def isUpperCase_def)

lemma decoded_bag_keeps_fields:
  assumes h: "bagKeepsFields item"
  shows "bagKeepsFields
           (item\<lparr> itemProviderData :=
                    Some (restWithout destructuredKeys (functionCallEntry item)) \<rparr>)"
proof -
  let ?pd = "restWithout destructuredKeys (functionCallEntry item)"
  let ?item = "item\<lparr> itemProviderData := Some ?pd \<rparr>"
  have d: "distinct (map fst ?pd)"
  proof -
    have "distinct (map fst (functionCallEntry item))"
      unfolding functionCallEntry_def
      by (rule distinct_spread) (simp add: functionCallFields_def)
    then show ?thesis by (simp add: restWithout_def distinct_map_filter)
  qed
  have f: "toSnakeKey k = k" if "k \<in> fst ` set ?pd" for k
  proof -
    from that have "k \<in> fst ` set (functionCallEntry item)" by (auto simp: restWithout_def)
    then have "k \<in> fst ` set (functionCallFields item)
                \<or> k \<in> fst ` set (snakeCaseBag (itemProviderData item))"
      by (simp add: functionCallEntry_def keys_spread)
    then show ?thesis using functionCallFields_keys snakeCaseBag_keys by blast
  qed
  have m: "map_of (snakeCaseBag (Some ?pd)) k = map_option camelOrSnakeToSnakeCase (map_of ?pd k)" for k
    using d f by (rule snakeCaseBag_fixed_keys)
  have g: "getProp (functionCallEntry item) ''id'' = optStr (item_id item)"
    "getProp (functionCallEntry item) ''type'' = Str ''function_call''"
    using h by (simp_all add: bagKeepsFields_iff)
  have w: "map_of (functionCallEntry item) ''id'' = Some (optStr (item_id item))"
    "map_of (functionCallEntry item) ''type'' = Some (Str ''function_call'')"
    using g by (auto simp: getProp_def map_of_functionCallEntry functionCallFields_def
        split: option.splits)
  have c: "camelOrSnakeToSnakeCase (optStr x) = optStr x" for x
    by (cases x) (simp_all add: optStr_def)
  have "map_of (snakeCaseBag (Some ?pd)) ''id'' = Some (optStr (item_id item))"
    "map_of (snakeCaseBag (Some ?pd)) ''type'' = Some (Str ''function_call'')"
    "map_of (snakeCaseBag (Some ?pd)) ''name'' = None"
    "map_of (snakeCaseBag (Some ?pd)) ''call_id'' = None"
    "map_of (snakeCaseBag (Some ?pd)) ''arguments'' = None"
    "map_of (snakeCaseBag (Some ?pd)) ''status'' = None"
    by (simp_all only: m) (simp_all add: map_of_restWithout w c destructuredKeys_def)
  then show ?thesis
    by (simp add: bagKeepsFields_def functionCallFields_def)
qed

text \<open>
  C7 (as the code has it). \<^verbatim>\<open>getInputItems\<close> spreads the normalised provider data of a
  function call after the item's own fields, so an entry of the bag under \<^verbatim>\<open>id\<close>, \<^verbatim>\<open>type\<close>,
  \<^verbatim>\<open>name\<close>, \<^verbatim>\<open>call_id\<close>, \<^verbatim>\<open>arguments\<close> or \<^verbatim>\<open>status\<close> replaces the field. When every such
  entry carries the value the field has anyway (\<open>bagKeepsFields\<close>), the item comes back from
  \<^verbatim>\<open>convertToOutputItem\<close> with the same id, call id, name, arguments and status. The returned
  provider data is then described key by key: \<^verbatim>\<open>call_id\<close>, \<^verbatim>\<open>name\<close>, \<^verbatim>\<open>status\<close> and
  \<^verbatim>\<open>arguments\<close> are taken out of it, every other key of the normalised bag has the bag's
  value, and \<^verbatim>\<open>id\<close> and \<^verbatim>\<open>type\<close> are there with the wire item's values. In terms of the
  item's own bag: an entry comes back under the snake-case form of its key with its value
  normalised, provided the entries of the bag with that snake-case form agree on the value;
  so it comes back under its key and unchanged when the key is already in snake case and
  the value has no keys to rewrite. The returned bag keeps the fields in its turn, so the
  decoded item goes through the round trip again. When some entry of the bag does change a
  field, the round trip does not reproduce the fields.
\<close>

theorem function_call_roundtrip:
  "(bagKeepsFields item \<longrightarrow>
      (\<exists>out. convertToOutputItem (getInputItems (InputItems [item])) = [FunctionCallOut out]
         \<and> out_id out = optStr (item_id item)
         \<and> out_callId out = Str (callId item)
         \<and> out_name out = Str (name item)
         \<and> out_arguments out = Str (arguments item)
         \<and> out_status out = optStr (status item)
         \<and> (\<forall>k. map_of (out_providerData out) k =
                (if k \<in> set destructuredKeys then None
                 else case map_of (snakeCaseBag (itemProviderData item)) k of
                        Some v \<Rightarrow> Some v
                      | None \<Rightarrow> map_of (functionCallFields item) k))
         \<and> (\<forall>es k v. itemProviderData item = Some es \<and> (k, v) \<in> set es
                \<and> toSnakeKey k \<notin> set destructuredKeys
                \<and> (\<forall>(k', v') \<in> set es. toSnakeKey k' = toSnakeKey k \<longrightarrow> v' = v)
                \<longrightarrow> map_of (out_providerData out) (toSnakeKey k)
                      = Some (camelOrSnakeToSnakeCase v))
         \<and> (\<forall>es k v. itemProviderData item = Some es \<and> (k, v) \<in> set es
                \<and> k \<notin> set destructuredKeys
                \<and> toSnakeKey k = k \<and> camelOrSnakeToSnakeCase v = v
                \<and> (\<forall>(k', v') \<in> set es. toSnakeKey k' = k \<longrightarrow> v' = v)
                \<longrightarrow> map_of (out_providerData out) k = Some v)
         \<and> bagKeepsFields (item\<lparr> itemProviderData := Some (out_providerData out) \<rparr>)))
   \<and> (\<not> bagKeepsFields item \<longrightarrow>
        \<not> (\<exists>out. convertToOutputItem (getInputItems (InputItems [item])) = [FunctionCallOut out]
              \<and> out_id out = optStr (item_id item)
              \<and> out_callId out = Str (callId item)
              \<and> out_name out = Str (name item)
              \<and> out_arguments out = Str (arguments item)
              \<and> out_status out = optStr (status item)))"
proof (intro conjI impI)
  assume h: "bagKeepsFields item"
  let ?pd = "restWithout destructuredKeys (functionCallEntry item)"
  let ?out = "\<lparr> out_id = optStr (item_id item), out_callId = Str (callId item),
                 out_name = Str (name item), out_status = optStr (status item),
                 out_arguments = Str (arguments item), out_providerData = ?pd \<rparr>"
  have conv: "convertToOutputItem (getInputItems (InputItems [item])) = [FunctionCallOut ?out]"
    using h by (rule roundtrip_decoded)
  have gen: "map_of ?pd (toSnakeKey k) = Some (camelOrSnakeToSnakeCase v)"
    if "itemProviderData item = Some es \<and> (k, v) \<in> set es
        \<and> toSnakeKey k \<notin> set destructuredKeys
        \<and> (\<forall>(k', v') \<in> set es. toSnakeKey k' = toSnakeKey k \<longrightarrow> v' = v)" for es k v
  proof -
    have "map_of (snakeCaseBag (Some es)) (toSnakeKey k) = Some (camelOrSnakeToSnakeCase v)"
      using that by (intro snakeCaseBag_entry) auto
    then show ?thesis using that by (simp add: decoded_bag_map)
  qed
  have surv: "map_of ?pd k = Some v"
    if "itemProviderData item = Some es \<and> (k, v) \<in> set es \<and> k \<notin> set destructuredKeys
        \<and> toSnakeKey k = k \<and> camelOrSnakeToSnakeCase v = v
        \<and> (\<forall>(k', v') \<in> set es. toSnakeKey k' = k \<longrightarrow> v' = v)" for es k v
    using gen[of es k v] that by simp
  have stable: "bagKeepsFields (item\<lparr> itemProviderData := Some ?pd \<rparr>)"
    using h by (rule decoded_bag_keeps_fields)
  show "\<exists>out. convertToOutputItem (getInputItems (InputItems [item])) = [FunctionCallOut out]
         \<and> out_id out = optStr (item_id item)
         \<and> out_callId out = Str (callId item)
         \<and> out_name out = Str (name item)
         \<and> out_arguments out = Str (arguments item)
         \<and> out_status out = optStr (status item)
         \<and> (\<forall>k. map_of (out_providerData out) k =
                (if k \<in> set destructuredKeys then None
                 else case map_of (snakeCaseBag (itemProviderData item)) k of
                        Some v \<Rightarrow> Some v
                      | None \<Rightarrow> map_of (functionCallFields item) k))
         \<and> (\<forall>es k v. itemProviderData item = Some es \<and> (k, v) \<in> set es
                \<and> toSnakeKey k \<notin> set destructuredKeys
                \<and> (\<forall>(k', v') \<in> set es. toSnakeKey k' = toSnakeKey k \<longrightarrow> v' = v)
                \<longrightarrow> map_of (out_providerData out) (toSnakeKey k)
                      = Some (camelOrSnakeToSnakeCase v))
         \<and> (\<forall>es k v. itemProviderData item = Some es \<and> (k, v) \<in> set es
                \<and> k \<notin> set destructuredKeys
                \<and> toSnakeKey k = k \<and> camelOrSnakeToSnakeCase v = v
                \<and> (\<forall>(k', v') \<in> set es. toSnakeKey k' = k \<longrightarrow> v' = v)
                \<longrightarrow> map_of (out_providerData out) k = Some v)
         \<and> bagKeepsFields (item\<lparr> itemProviderData := Some (out_providerData out) \<rparr>)"
  proof (intro exI[of _ ?out] conjI)
    show "convertToOutputItem (getInputItems (InputItems [item])) = [FunctionCallOut ?out]"
      by (rule conv)
    show "\<forall>k. map_of (out_providerData ?out) k =
                (if k \<in> set destructuredKeys then None
                 else case map_of (snakeCaseBag (itemProviderData item)) k of
                        Some v \<Rightarrow> Some v
                      | None \<Rightarrow> map_of (functionCallFields item) k)"
      by (simp add: decoded_bag_map)
    show "\<forall>es k v. itemProviderData item = Some es \<and> (k, v) \<in> set es
                \<and> toSnakeKey k \<notin> set destructuredKeys
                \<and> (\<forall>(k', v') \<in> set es. toSnakeKey k' = toSnakeKey k \<longrightarrow> v' = v)
                \<longrightarrow> map_of (out_providerData ?out) (toSnakeKey k)
                      = Some (camelOrSnakeToSnakeCase v)"
    proof (intro allI impI)
      fix es k v
      assume "itemProviderData item = Some es \<and> (k, v) \<in> set es
                \<and> toSnakeKey k \<notin> set destructuredKeys
                \<and> (\<forall>(k', v') \<in> set es. toSnakeKey k' = toSnakeKey k \<longrightarrow> v' = v)"
      then have "map_of ?pd (toSnakeKey k) = Some (camelOrSnakeToSnakeCase v)" by (rule gen)
      then show "map_of (out_providerData ?out) (toSnakeKey k) = Some (camelOrSnakeToSnakeCase v)"
        by simp
    qed
    show "\<forall>es k v. itemProviderData item = Some es \<and> (k, v) \<in> set es
                \<and> k \<notin> set destructuredKeys
                \<and> toSnakeKey k = k \<and> camelOrSnakeToSnakeCase v = v
                \<and> (\<forall>(k', v') \<in> set es. toSnakeKey k' = k \<longrightarrow> v' = v)
                \<longrightarrow> map_of (out_providerData ?out) k = Some v"
    proof (intro allI impI)
      fix es k v
      assume "itemProviderData item = Some es \<and> (k, v) \<in> set es
                \<and> k \<notin> set destructuredKeys
                \<and> toSnakeKey k = k \<and> camelOrSnakeToSnakeCase v = v
                \<and> (\<forall>(k', v') \<in> set es. toSnakeKey k' = k \<longrightarrow> v' = v)"
      then have "map_of ?pd k = Some v" by (rule surv)
      then show "map_of (out_providerData ?out) k = Some v" by simp
    qed
    show "bagKeepsFields (item\<lparr> itemProviderData := Some (out_providerData ?out) \<rparr>)"
      using stable by simp
  qed simp_all
next
  assume n: "\<not> bagKeepsFields item"
  show "\<not> (\<exists>out. convertToOutputItem (getInputItems (InputItems [item])) = [FunctionCallOut out]
              \<and> out_id out = optStr (item_id item)
              \<and> out_callId out = Str (callId item)
              \<and> out_name out = Str (name item)
              \<and> out_arguments out = Str (arguments item)
              \<and> out_status out = optStr (status item))"
    using n roundtrip_only_if by blast
qed


lemmas item_defs = bagKeepsFields_def functionCallFields_def snakeCaseBag_def spread_def
  toSnakeKey_def isUpperCase_def toLowerChar_def optStr_def functionCallEntry_def
  convertToOutputItem_def convertItem_def getProp_def restWithout_def destructuredKeys_def

theorem function_call_roundtrip_witness:
  "bagKeepsFields lookupCall
   \<and> (\<exists>out. convertToOutputItem (getInputItems (InputItems [lookupCall])) = [FunctionCallOut out]
          \<and> out_id out = Str ''fc_1'' \<and> out_callId out = Str ''call_1''
          \<and> out_name out = Str ''lookup'' \<and> out_arguments out = Str ''{}''
          \<and> out_status out = Str ''completed''
          \<and> map_of (out_providerData out) ''vendor_note'' = Some (Str ''kept'')
          \<and> map_of (out_providerData out) ''id'' = Some (Str ''fc_1'')
          \<and> map_of (out_providerData out) ''type'' = Some (Str ''function_call'')
          \<and> bagKeepsFields (lookupCall\<lparr> itemProviderData := Some (out_providerData out) \<rparr>))
   \<and> \<not> bagKeepsFields collidingCall
   \<and> \<not> (\<exists>out. convertToOutputItem (getInputItems (InputItems [collidingCall]))
                 = [FunctionCallOut out]
              \<and> out_id out = optStr (item_id collidingCall)
              \<and> out_callId out = Str (callId collidingCall)
              \<and> out_name out = Str (name collidingCall)
              \<and> out_arguments out = Str (arguments collidingCall)
              \<and> out_status out = optStr (status collidingCall))"
proof -
  have h: "bagKeepsFields lookupCall"
    by (simp add: item_defs lookupCall_def)
  have n: "\<not> bagKeepsFields collidingCall"
    by (simp add: item_defs collidingCall_def)
  from function_call_roundtrip[of lookupCall] h
  obtain out where
    o: "convertToOutputItem (getInputItems (InputItems [lookupCall])) = [FunctionCallOut out]"
       "out_id out = optStr (item_id lookupCall)" "out_callId out = Str (callId lookupCall)"
       "out_name out = Str (name lookupCall)" "out_arguments out = Str (arguments lookupCall)"
       "out_status out = optStr (status lookupCall)"
    and m: "\<forall>k. map_of (out_providerData out) k =
                (if k \<in> set destructuredKeys then None
                 else case map_of (snakeCaseBag (itemProviderData lookupCall)) k of
                        Some v \<Rightarrow> Some v
                      | None \<Rightarrow> map_of (functionCallFields lookupCall) k)"
    and s: "\<forall>es k v. itemProviderData lookupCall = Some es \<and> (k, v) \<in> set es
                \<and> k \<notin> set destructuredKeys
                \<and> toSnakeKey k = k \<and> camelOrSnakeToSnakeCase v = v
                \<and> (\<forall>(k', v') \<in> set es. toSnakeKey k' = k \<longrightarrow> v' = v)
                \<longrightarrow> map_of (out_providerData out) k = Some v"
    and b: "bagKeepsFields (lookupCall\<lparr> itemProviderData := Some (out_providerData out) \<rparr>)"
    by blast
  have f: "out_id out = Str ''fc_1''" "out_callId out = Str ''call_1''"
          "out_name out = Str ''lookup''" "out_arguments out = Str ''{}''"
          "out_status out = Str ''completed''"
    using o(2-6) by (simp_all add: lookupCall_def optStr_def)
  have "itemProviderData lookupCall =
          Some [(''id'', Str ''fc_1''), (''type'', Str ''function_call''),
                (''vendor_note'', Str ''kept'')]
        \<and> (''vendor_note'', Str ''kept'') \<in> set [(''id'', Str ''fc_1''), (''type'', Str ''function_call''),
                (''vendor_note'', Str ''kept'')]
        \<and> ''vendor_note'' \<notin> set destructuredKeys
        \<and> toSnakeKey ''vendor_note'' = ''vendor_note''
        \<and> camelOrSnakeToSnakeCase (Str ''kept'') = Str ''kept''
        \<and> (\<forall>(k', v') \<in> set [(''id'', Str ''fc_1''), (''type'', Str ''function_call''),
                (''vendor_note'', Str ''kept'')].
              toSnakeKey k' = ''vendor_note'' \<longrightarrow> v' = Str ''kept'')"
    by (simp add: lookupCall_def item_defs)
  with s have v: "map_of (out_providerData out) ''vendor_note'' = Some (Str ''kept'')"
    by blast
  have i: "map_of (out_providerData out) ''id'' = Some (Str ''fc_1'')"
    "map_of (out_providerData out) ''type'' = Some (Str ''function_call'')"
    by (simp_all add: m lookupCall_def item_defs)
  from function_call_roundtrip[of collidingCall] n
  have c: "\<not> (\<exists>out. convertToOutputItem (getInputItems (InputItems [collidingCall]))
                 = [FunctionCallOut out]
              \<and> out_id out = optStr (item_id collidingCall)
              \<and> out_callId out = Str (callId collidingCall)
              \<and> out_name out = Str (name collidingCall)
              \<and> out_arguments out = Str (arguments collidingCall)
              \<and> out_status out = optStr (status collidingCall))"
    by blast
  show ?thesis using h n o(1) f v i b c by blast
qed

text \<open>
  The claim as worded fails in two ways. When the bag has a key the translator writes, the
  bag's value replaces the field: the bag's \<^verbatim>\<open>name\<close> goes out on the wire and comes back as
  the item's name. And a camel-case key of the bag does not come back: it returns in snake
  case, as do the keys of an object under it.
\<close>

theorem function_call_roundtrip_counterexample:
  "name collidingCall = ''lookup''
   \<and> convertToOutputItem (getInputItems (InputItems [collidingCall])) =
       [FunctionCallOut
          \<lparr> out_id = Str ''fc_1'', out_callId = Str ''call_1'', out_name = Str ''other'',
            out_status = Str ''completed'', out_arguments = Str ''{}'',
            out_providerData = [(''id'', Str ''fc_1''), (''type'', Str ''function_call'')] \<rparr>]
   \<and> itemProviderData camelCall = Some [(''vendorNote'', Obj [(''traceId'', Str ''t1'')])]
   \<and> convertToOutputItem (getInputItems (InputItems [camelCall])) =
       [FunctionCallOut
          \<lparr> out_id = Str ''fc_1'', out_callId = Str ''call_1'', out_name = Str ''lookup'',
            out_status = Str ''completed'', out_arguments = Str ''{}'',
            out_providerData =
              [(''id'', Str ''fc_1''), (''type'', Str ''function_call''),
               (''vendor_note'', Obj [(''trace_id'', Str ''t1'')])] \<rparr>]"
  by (simp add: collidingCall_def camelCall_def item_defs)

section \<open>One request over the websocket\<close>

lemma bodyResult_sel [simp]:
  "outcome (bodyResult out received saw ys m) = out"
  "yielded (bodyResult out received saw ys m) = ys"
  "receivedAnyEvent (bodyResult out received saw ys m) = received"
  "sawTerminalResponseEvent (bodyResult out received saw ys m) = saw"
  "final (bodyResult out received saw ys m) = m"
  by (simp_all add: bodyResult_def)

lemma drop_fields [simp]:
  "locks (dropWebSocketConnection m) = locks m"
  "wsRequestLock (dropWebSocketConnection m) = wsRequestLock m"
  "reuseConnection (dropWebSocketConnection m) = reuseConnection m"
  "sendCalls (dropWebSocketConnection m) = sendCalls m"
  "reconnects (dropWebSocketConnection m) = reconnects m"
  "opened (dropWebSocketConnection m) = opened m"
  "wsConnection (dropWebSocketConnection m) = None"
  "wsConnectionIdentity (dropWebSocketConnection m) = None"
  by (simp_all add: dropWebSocketConnection_def split: option.splits)

lemma drop_closeCalls:
  "closeCalls (dropWebSocketConnection m) =
     closeCalls m @ (case wsConnection m of Some c \<Rightarrow> [c] | None \<Rightarrow> [])"
  by (simp add: dropWebSocketConnection_def split: option.splits)

lemma cacheInv_drop: "cacheInv m \<Longrightarrow> cacheInv (dropWebSocketConnection m)"
  by (auto simp: cacheInv_def drop_closeCalls list_all_iff split: option.splits)

lemma cacheInv_dropped_all_closed:
  "cacheInv m \<Longrightarrow> wsConnection m = None \<Longrightarrow> c < opened m \<Longrightarrow> c \<in> set (closeCalls m)"
  by (auto simp: cacheInv_def list_all_iff)

lemma cacheInv_cached_open:
  "cacheInv m \<Longrightarrow> wsConnection m = Some c \<Longrightarrow> c \<notin> set (closeCalls m)"
  by (auto simp: cacheInv_def list_all_iff)

lemma cacheInv_connect:
  assumes "cacheInv m" "wsConnection m = None"
  shows "cacheInv (m\<lparr> wsConnection := Some (opened m), wsConnectionIdentity := Some i,
                      opened := opened m + 1 \<rparr>)"
  using assms by (auto simp: cacheInv_def list_all_iff less_Suc_eq)

lemma ensure_cases:
  obtains (reuse) c where "wsConnection m = Some c"
      "ensureWebSocketConnection m i reusable co = (Inr (c, True), m)"
  | (fail) e where "co = Some e"
      "ensureWebSocketConnection m i reusable co = (Inl e, dropWebSocketConnection m)"
  | (fresh) "co = None"
      "ensureWebSocketConnection m i reusable co =
         (Inr (opened m, False),
          (dropWebSocketConnection m)\<lparr> wsConnection := Some (opened m),
             wsConnectionIdentity := Some i, opened := opened m + 1 \<rparr>)"
  by (cases "wsConnection m"; cases co;
      cases "wsConnectionIdentity m = Some i \<and> reusable")
     (auto simp: ensureWebSocketConnection_def Let_def)

lemma ensure_fields:
  "locks (snd (ensureWebSocketConnection m i reusable co)) = locks m"
  "wsRequestLock (snd (ensureWebSocketConnection m i reusable co)) = wsRequestLock m"
  "reuseConnection (snd (ensureWebSocketConnection m i reusable co)) = reuseConnection m"
  "sendCalls (snd (ensureWebSocketConnection m i reusable co)) = sendCalls m"
  "reconnects (snd (ensureWebSocketConnection m i reusable co)) = reconnects m"
  by (rule ensure_cases[of m i reusable co]; simp)+

lemma ensure_cacheInv:
  "cacheInv m \<Longrightarrow> cacheInv (snd (ensureWebSocketConnection m i reusable co))"
proof -
  assume inv: "cacheInv m"
  show ?thesis
  proof (rule ensure_cases[of m i reusable co])
    fix c assume "ensureWebSocketConnection m i reusable co = (Inr (c, True), m)"
    then show ?thesis using inv by simp
  next
    fix e assume "ensureWebSocketConnection m i reusable co = (Inl e, dropWebSocketConnection m)"
    then show ?thesis using inv by (simp add: cacheInv_drop)
  next
    assume eq: "ensureWebSocketConnection m i reusable co =
           (Inr (opened m, False),
            (dropWebSocketConnection m)\<lparr> wsConnection := Some (opened m),
               wsConnectionIdentity := Some i, opened := opened m + 1 \<rparr>)"
    have "cacheInv (dropWebSocketConnection m)" using inv by (rule cacheInv_drop)
    from cacheInv_connect[OF this, of i] show ?thesis using eq by simp
  qed
qed

lemma ensure_cached:
  "ensureWebSocketConnection m i reusable co = (Inr (c, r), m') \<Longrightarrow> wsConnection m' = Some c"
  by (rule ensure_cases[of m i reusable co]) auto

lemma reconnect_fields:
  "locks (snd (reconnectWebSocketConnection m i env)) = locks m"
  "wsRequestLock (snd (reconnectWebSocketConnection m i env)) = wsRequestLock m"
  "reuseConnection (snd (reconnectWebSocketConnection m i env)) = reuseConnection m"
  "sendCalls (snd (reconnectWebSocketConnection m i env)) = sendCalls m"
  "reconnects (snd (reconnectWebSocketConnection m i env)) = reconnects m + 1"
  using ensure_fields[of "(dropWebSocketConnection m)\<lparr>reconnects := reconnects m + 1\<rparr>" i
          "cachedReusable env" "connect2 env"]
  by (auto simp: reconnectWebSocketConnection_def Let_def split: prod.splits sum.splits)

lemma cacheInv_reconnects_upd: "cacheInv (m\<lparr>reconnects := n\<rparr>) = cacheInv m"
  by (simp add: cacheInv_def split: option.splits)

lemma reconnect_cacheInv:
  assumes "cacheInv m"
  shows "cacheInv (snd (reconnectWebSocketConnection m i env))"
proof -
  let ?m1 = "(dropWebSocketConnection m)\<lparr>reconnects := reconnects m + 1\<rparr>"
  have 1: "cacheInv ?m1" using assms by (simp add: cacheInv_reconnects_upd cacheInv_drop)
  have 2: "cacheInv (snd (ensureWebSocketConnection ?m1 i (cachedReusable env) (connect2 env)))"
    using 1 by (rule ensure_cacheInv)
  show ?thesis using 1 2
    by (auto simp: reconnectWebSocketConnection_def Let_def split: prod.splits sum.splits)
qed

lemma reconnect_cached:
  "reconnectWebSocketConnection m i env = (Inr (c, r), m') \<Longrightarrow> wsConnection m' = Some c"
  by (auto simp: reconnectWebSocketConnection_def Let_def
           split: if_splits prod.splits sum.splits dest: ensure_cached)

lemma recordSend_fields [simp]:
  "locks (recordSend c s m) = locks m"
  "wsRequestLock (recordSend c s m) = wsRequestLock m"
  "reuseConnection (recordSend c s m) = reuseConnection m"
  "reconnects (recordSend c s m) = reconnects m"
  "wsConnection (recordSend c s m) = wsConnection m"
  "sendCalls (recordSend c s m) = sendCalls m @ [(c, s = None)]"
  "cacheInv (recordSend c s m) = cacheInv m"
  by (simp_all add: recordSend_def cacheInv_def split: option.splits)

lemma send_cases:
  obtains (sent) "send1 env = None"
      "sendSerializedFrame m i env a = (Inr a, recordSend (fst a) None m)"
  | (other) e where "send1 env = Some e" "\<not> isWebSocketNotOpenError e"
      "sendSerializedFrame m i env a = (Inl e, recordSend (fst a) (Some e) m)"
  | (noreconnect) e e' where "send1 env = Some e" "isWebSocketNotOpenError e"
      "fst (reconnectWebSocketConnection (recordSend (fst a) (Some e) m) i env) = Inl e'"
      "sendSerializedFrame m i env a =
         (Inl e', snd (reconnectWebSocketConnection (recordSend (fst a) (Some e) m) i env))"
  | (resent) e n where "send1 env = Some e" "isWebSocketNotOpenError e"
      "fst (reconnectWebSocketConnection (recordSend (fst a) (Some e) m) i env) = Inr n"
      "send2 env = None"
      "sendSerializedFrame m i env a =
         (Inr n, recordSend (fst n) None
                   (snd (reconnectWebSocketConnection (recordSend (fst a) (Some e) m) i env)))"
  | (refailed) e n e2 where "send1 env = Some e" "isWebSocketNotOpenError e"
      "fst (reconnectWebSocketConnection (recordSend (fst a) (Some e) m) i env) = Inr n"
      "send2 env = Some e2"
      "sendSerializedFrame m i env a =
         (Inl e2, recordSend (fst n) (Some e2)
                   (snd (reconnectWebSocketConnection (recordSend (fst a) (Some e) m) i env)))"
proof (cases "send1 env")
  case None
  then show ?thesis using sent by (simp add: sendSerializedFrame_def Let_def)
next
  case (Some e)
  show ?thesis
  proof (cases "isWebSocketNotOpenError e")
    case False
    then show ?thesis using other Some by (simp add: sendSerializedFrame_def Let_def)
  next
    case True
    let ?rc = "reconnectWebSocketConnection (recordSend (fst a) (Some e) m) i env"
    show ?thesis
    proof (cases "fst ?rc")
      case (Inl e')
      then show ?thesis using noreconnect[OF Some True Inl] Some True
        by (cases ?rc) (simp add: sendSerializedFrame_def Let_def)
    next
      case (Inr n)
      show ?thesis
      proof (cases "send2 env")
        case None
        then show ?thesis using resent[OF Some True Inr None] Some True Inr
          by (cases ?rc) (simp add: sendSerializedFrame_def Let_def)
      next
        case (Some e2)
        then show ?thesis using refailed[OF \<open>send1 env = Some e\<close> True Inr Some] \<open>send1 env = Some e\<close> True Inr
          by (cases ?rc) (simp add: sendSerializedFrame_def Let_def)
      qed
    qed
  qed
qed

lemma send_fields:
  "locks (snd (sendSerializedFrame m i env a)) = locks m"
  "wsRequestLock (snd (sendSerializedFrame m i env a)) = wsRequestLock m"
  "reuseConnection (snd (sendSerializedFrame m i env a)) = reuseConnection m"
  by (rule send_cases[of env m i a]; simp add: reconnect_fields)+

lemma send_cacheInv:
  "cacheInv m \<Longrightarrow> cacheInv (snd (sendSerializedFrame m i env a))"
  by (rule send_cases[of env m i a]; simp add: reconnect_cacheInv)

lemma send_cached:
  assumes "wsConnection m = Some (fst a)" "sendSerializedFrame m i env a = (Inr n, m')"
  shows "wsConnection m' = Some (fst n)"
proof (rule send_cases[of env m i a])
  assume "sendSerializedFrame m i env a = (Inr a, recordSend (fst a) None m)"
  then show ?thesis using assms by auto
next
  fix e assume "sendSerializedFrame m i env a = (Inl e, recordSend (fst a) (Some e) m)"
  then show ?thesis using assms by simp
next
  fix e e' assume "sendSerializedFrame m i env a =
         (Inl e', snd (reconnectWebSocketConnection (recordSend (fst a) (Some e) m) i env))"
  then show ?thesis using assms by simp
next
  fix e n'
  let ?rc = "reconnectWebSocketConnection (recordSend (fst a) (Some e) m) i env"
  assume r: "fst ?rc = Inr n'"
    and eq: "sendSerializedFrame m i env a = (Inr n', recordSend (fst n') None (snd ?rc))"
  have "?rc = (Inr (fst n', snd n'), snd ?rc)" using r by (cases ?rc) simp
  from reconnect_cached[OF this] show ?thesis using eq assms by simp
next
  fix e n' e2
  assume "sendSerializedFrame m i env a =
         (Inl e2, recordSend (fst n') (Some e2)
                   (snd (reconnectWebSocketConnection (recordSend (fst a) (Some e) m) i env)))"
  then show ?thesis using assms by simp
qed

lemma send_counts:
  "length (sendCalls (snd (sendSerializedFrame m i env a))) \<le> length (sendCalls m) + 2"
  "length (sendCalls m) < length (sendCalls (snd (sendSerializedFrame m i env a)))"
  "reconnects (snd (sendSerializedFrame m i env a)) \<le> reconnects m + 1"
  "reconnects (snd (sendSerializedFrame m i env a)) = reconnects m + 1
     \<longleftrightarrow> (\<exists>e. send1 env = Some e \<and> isWebSocketNotOpenError e)"
  "length (sendCalls (snd (sendSerializedFrame m i env a))) = length (sendCalls m) + 2
     \<longrightarrow> reconnects (snd (sendSerializedFrame m i env a)) = reconnects m + 1"
  by (rule send_cases[of env m i a]; simp add: reconnect_fields)+

lemma tryBlock_cases:
  obtains (early) e where "tryBlock m env = bodyResult (Threw e) False False [] m"
      "sendCalls (final (tryBlock m env)) = sendCalls m"
  | (unsent) i e r where "prepared env = Inr i"
      "tryBlock m env = bodyResult (Threw e) False False []
         (snd (ensureWebSocketConnection m i (cachedReusable env) (connect1 env)))"
  | (sendfail) i conn m1 e where "prepared env = Inr i"
      "ensureWebSocketConnection m i (cachedReusable env) (connect1 env) = (Inr conn, m1)"
      "fst (sendSerializedFrame m1 i env conn) = Inl e"
      "tryBlock m env = bodyResult (Threw e) False False [] (snd (sendSerializedFrame m1 i env conn))"
  | (loop) i conn m1 active out received saw ys where "prepared env = Inr i"
      "ensureWebSocketConnection m i (cachedReusable env) (connect1 env) = (Inr conn, m1)"
      "sendSerializedFrame m1 i env conn = (Inr active, snd (sendSerializedFrame m1 i env conn))"
      "readLoop (jsonStringify env) (snd active) (consumerStopsAfter env) (frames env) False []
         = (out, received, saw, ys)"
      "tryBlock m env = bodyResult out received saw ys (snd (sendSerializedFrame m1 i env conn))"
proof (cases "abortedAt env 2")
  case True
  then show ?thesis using early[of abortError] by (simp add: tryBlock_def)
next
  case a2: False
  show ?thesis
  proof (cases "prepared env")
    case (Inl e)
    then show ?thesis using early[of e] a2 by (simp add: tryBlock_def)
  next
    case (Inr i)
    show ?thesis
    proof (cases "abortedAt env 3")
      case True
      then show ?thesis using early[of abortError] a2 Inr by (simp add: tryBlock_def)
    next
      case a3: False
      let ?en = "ensureWebSocketConnection m i (cachedReusable env) (connect1 env)"
      show ?thesis
      proof (cases "fst ?en")
        case (Inl e)
        then have "tryBlock m env = bodyResult (Threw e) False False [] (snd ?en)"
          using a2 a3 Inr by (cases ?en) (simp add: tryBlock_def)
        then show ?thesis using unsent[OF Inr] by blast
      next
        case c: (Inr conn)
        then have en: "?en = (Inr conn, snd ?en)" by (cases ?en) simp
        show ?thesis
        proof (cases "abortedAt env 4")
          case True
          then have "tryBlock m env = bodyResult (Threw abortError) False False [] (snd ?en)"
            using a2 a3 Inr c by (cases ?en) (simp add: tryBlock_def)
          then show ?thesis using unsent[OF Inr] by blast
        next
          case a4: False
          let ?sd = "sendSerializedFrame (snd ?en) i env conn"
          show ?thesis
          proof (cases "fst ?sd")
            case (Inl e)
            then have "tryBlock m env = bodyResult (Threw e) False False [] (snd ?sd)"
              using a2 a3 a4 Inr c by (cases ?en; cases ?sd) (simp add: tryBlock_def)
            then show ?thesis using sendfail[OF Inr en Inl] by blast
          next
            case s: (Inr active)
            then have sd: "?sd = (Inr active, snd ?sd)" by (cases ?sd) simp
            obtain out received saw ys where
              rl: "readLoop (jsonStringify env) (snd active) (consumerStopsAfter env) (frames env)
                     False [] = (out, received, saw, ys)"
              by (metis prod_cases4)
            have "tryBlock m env = bodyResult out received saw ys (snd ?sd)"
              using a2 a3 a4 Inr c s rl by (cases ?en; cases ?sd) (simp add: tryBlock_def)
            then show ?thesis using loop[OF Inr en sd rl] by blast
          qed
        qed
      qed
    qed
  qed
qed

lemma tryBlock_fields:
  "locks (final (tryBlock m env)) = locks m"
  "wsRequestLock (final (tryBlock m env)) = wsRequestLock m"
  "reuseConnection (final (tryBlock m env)) = reuseConnection m"
proof -
  have ens: "\<And>i conn m1. ensureWebSocketConnection m i (cachedReusable env) (connect1 env) = (Inr conn, m1)
        \<Longrightarrow> locks m1 = locks m \<and> wsRequestLock m1 = wsRequestLock m \<and> reuseConnection m1 = reuseConnection m"
    using ensure_fields[of m _ "cachedReusable env" "connect1 env"] by (metis snd_conv)
  show "locks (final (tryBlock m env)) = locks m"
    by (rule tryBlock_cases[of m env]) (auto simp: ensure_fields send_fields dest: ens)
  show "wsRequestLock (final (tryBlock m env)) = wsRequestLock m"
    by (rule tryBlock_cases[of m env]) (auto simp: ensure_fields send_fields dest: ens)
  show "reuseConnection (final (tryBlock m env)) = reuseConnection m"
    by (rule tryBlock_cases[of m env]) (auto simp: ensure_fields send_fields dest: ens)
qed

lemma tryBlock_cacheInv: "cacheInv m \<Longrightarrow> cacheInv (final (tryBlock m env))"
proof -
  assume inv: "cacheInv m"
  have ens: "\<And>i conn m1. ensureWebSocketConnection m i (cachedReusable env) (connect1 env) = (Inr conn, m1)
        \<Longrightarrow> cacheInv m1"
    using ensure_cacheInv[OF inv, of _ "cachedReusable env" "connect1 env"] by (metis snd_conv)
  show ?thesis
    by (rule tryBlock_cases[of m env]) (auto simp: inv ensure_cacheInv send_cacheInv dest: ens)
qed

lemma readLoop_saw:
  "readLoop sf reused stop fs received ys = (out, received', saw, ys') \<Longrightarrow>
   ys = [] \<or> \<not> isTerminalResponsesStreamEventType (eventTypeOf (last ys)) \<Longrightarrow>
   saw = (ys' \<noteq> [] \<and> isTerminalResponsesStreamEventType (eventTypeOf (last ys')))
   \<and> (saw \<longrightarrow> out = Completed \<or> out = EndedEarly)"
proof (induction sf reused stop fs received ys rule: readLoop.induct)
  case (5 stringify reused stop payload fs received ys)
  show ?case
  proof (cases "eventTypeOf payload = Some ''error''")
    case True
    then show ?thesis using "5.prems" by auto
  next
    case ne: False
    show ?thesis
    proof (cases "stop = Some (length ys + 1)")
      case True
      then show ?thesis using "5.prems" ne by auto
    next
      case ns: False
      show ?thesis
      proof (cases "isTerminalResponsesStreamEventType (eventTypeOf payload)")
        case True
        then show ?thesis using "5.prems" ne ns by auto
      next
        case False
        have "readLoop stringify reused stop fs True (ys @ [payload]) = (out, received', saw, ys')"
          using "5.prems"(1) ne ns False by simp
        moreover have "ys @ [payload] = [] \<or>
            \<not> isTerminalResponsesStreamEventType (eventTypeOf (last (ys @ [payload])))"
          using False by simp
        ultimately show ?thesis using "5.IH"[OF ne ns False] by blast
      qed
    qed
  qed
qed (auto split: if_splits)

lemma releaseLock_fields [simp]:
  "wsConnection (releaseLock t m) = wsConnection m"
  "wsConnectionIdentity (releaseLock t m) = wsConnectionIdentity m"
  "wsRequestLock (releaseLock t m) = wsRequestLock m"
  "reuseConnection (releaseLock t m) = reuseConnection m"
  "closeCalls (releaseLock t m) = closeCalls m"
  "sendCalls (releaseLock t m) = sendCalls m"
  "reconnects (releaseLock t m) = reconnects m"
  "opened (releaseLock t m) = opened m"
  by (simp_all add: releaseLock_def)

lemma releaseLock_cacheInv [simp]: "cacheInv (releaseLock t m) = cacheInv m"
  by (simp add: cacheInv_def split: option.splits)

lemma enqueued_fields [simp]:
  "wsConnection (enqueued m) = wsConnection m"
  "wsConnectionIdentity (enqueued m) = wsConnectionIdentity m"
  "reuseConnection (enqueued m) = reuseConnection m"
  "closeCalls (enqueued m) = closeCalls m"
  "sendCalls (enqueued m) = sendCalls m"
  "reconnects (enqueued m) = reconnects m"
  "opened (enqueued m) = opened m"
  "locks (enqueued m) = locks m @ [\<lparr> released = False, resolveCalls = 0 \<rparr>]"
  "wsRequestLock (enqueued m) = wsRequestLock m @ [length (locks m)]"
  by (simp_all add: enqueued_def)

lemma enqueued_cacheInv [simp]: "cacheInv (enqueued m) = cacheInv m"
  by (simp add: cacheInv_def split: option.splits)

lemma lockResolved_enqueued: "lockResolved (enqueued m) chain = lockResolved m chain"
  by (auto simp: lockResolved_def list_all_iff nth_append less_Suc_eq)

lemma enqueueRequest_eq:
  "enqueueRequest m env =
     (if abortedAt env 0 then Inl abortError
      else if queueDeadlinePassed env then Inl (queueTimeoutError env)
      else Inr (length (locks m), wsRequestLock m, enqueued m))"
  by (simp add: enqueueRequest_def enqueued_def Let_def)

lemma iter_acquired:
  "acquiresLock m env \<Longrightarrow>
   iterWebSocketResponseEvents m env = runLocked (enqueued m) env (length (locks m))"
  by (simp add: iterWebSocketResponseEvents_def enqueueRequest_eq resumeRequest_def
        acquiresLock_def lockResolved_enqueued)

lemma runLocked_cases:
  obtains (waits) "outcome (tryBlock m env) = WaitsForFrame"
      "runLocked m env t = tryBlock m env"
  | (kept) "outcome (tryBlock m env) \<noteq> WaitsForFrame"
      "sawTerminalResponseEvent (tryBlock m env)" "reuseConnection m"
      "runLocked m env t =
         (tryBlock m env)\<lparr> outcome := (case outcome (tryBlock m env) of
                             Threw e \<Rightarrow> Threw (catchBlock (receivedAnyEvent (tryBlock m env)) e)
                           | out \<Rightarrow> out),
                           final := releaseLock t (final (tryBlock m env)) \<rparr>"
  | (dropped) "outcome (tryBlock m env) \<noteq> WaitsForFrame"
      "\<not> (sawTerminalResponseEvent (tryBlock m env) \<and> reuseConnection m)"
      "runLocked m env t =
         (tryBlock m env)\<lparr> outcome := (case outcome (tryBlock m env) of
                             Threw e \<Rightarrow> Threw (catchBlock (receivedAnyEvent (tryBlock m env)) e)
                           | out \<Rightarrow> out),
                           final := releaseLock t (dropWebSocketConnection (final (tryBlock m env))) \<rparr>"
  by (cases "outcome (tryBlock m env) = WaitsForFrame";
      cases "sawTerminalResponseEvent (tryBlock m env) \<and> reuseConnection m")
     (auto simp: runLocked_def Let_def tryBlock_fields)

lemma runLocked_WaitsForFrame:
  "outcome (runLocked m env t) = WaitsForFrame \<longleftrightarrow> outcome (tryBlock m env) = WaitsForFrame"
  by (rule runLocked_cases[of m env t]) (auto split: outcome.splits)

lemma tryBlock_saw:
  "sawTerminalResponseEvent (tryBlock m env) =
     (yielded (tryBlock m env) \<noteq> []
      \<and> isTerminalResponsesStreamEventType (eventTypeOf (last (yielded (tryBlock m env)))))"
proof (rule tryBlock_cases[of m env])
  fix i conn m1 active out received saw ys
  assume rl: "readLoop (jsonStringify env) (snd active) (consumerStopsAfter env) (frames env) False []
         = (out, received, saw, ys)"
    and tb: "tryBlock m env = bodyResult out received saw ys (snd (sendSerializedFrame m1 i env conn))"
  from readLoop_saw[OF rl] show ?thesis by (simp add: tb)
qed auto

lemma tryBlock_saw_cached:
  assumes "sawTerminalResponseEvent (tryBlock m env)"
  shows "\<exists>c. wsConnection (final (tryBlock m env)) = Some c"
proof (rule tryBlock_cases[of m env])
  fix i conn m1 active out received saw ys
  assume en: "ensureWebSocketConnection m i (cachedReusable env) (connect1 env) = (Inr conn, m1)"
    and sd: "sendSerializedFrame m1 i env conn = (Inr active, snd (sendSerializedFrame m1 i env conn))"
    and tb: "tryBlock m env = bodyResult out received saw ys (snd (sendSerializedFrame m1 i env conn))"
  have "wsConnection m1 = Some (fst conn)" using ensure_cached[of m i _ _ "fst conn" "snd conn" m1] en by simp
  from send_cached[OF this sd] show ?thesis by (simp add: tb)
qed (use assms in auto)

text \<open>The socket bookkeeping holds for a new model and after every request.\<close>

lemma cacheInv_newModel: "cacheInv (newModel reuse)"
  by (simp add: cacheInv_def newModel_def)

lemma cacheInv_runLocked:
  assumes "cacheInv m"
  shows "cacheInv (final (runLocked m env t))"
proof -
  have b: "cacheInv (final (tryBlock m env))" using assms by (rule tryBlock_cacheInv)
  show ?thesis
    by (rule runLocked_cases[of m env t]) (simp_all add: b cacheInv_drop)
qed

lemma cacheInv_iter:
  assumes "cacheInv m"
  shows "cacheInv (final (iterWebSocketResponseEvents m env))"
proof -
  have "cacheInv (final (runLocked (enqueued m) env (length (locks m))))"
    using assms by (intro cacheInv_runLocked) simp
  then show ?thesis using assms
    by (simp add: iterWebSocketResponseEvents_def enqueueRequest_eq resumeRequest_def
             split: option.splits)
qed

text \<open>
  C1 (as the code has it). For a request that got the lock and has ended, however it
  ended, in a model whose socket bookkeeping holds (\<open>cacheInv\<close>, see above): the
  \<^verbatim>\<open>finally\<close> block keeps the cached connection exactly when a terminal event
  (\<^verbatim>\<open>response.completed\<close>, \<^verbatim>\<open>response.failed\<close>, \<^verbatim>\<open>response.incomplete\<close> or \<^verbatim>\<open>response.error\<close>) was
  the last event yielded and connection reuse is enabled; then the cached connection has
  not been closed. In every other case the cache is empty and every socket opened so far
  has been closed.
\<close>

theorem connection_kept_iff_terminal_and_reuse:
  assumes "cacheInv m" and "acquiresLock m env"
      and "outcome (iterWebSocketResponseEvents m env) \<noteq> WaitsForFrame"
  shows "sawTerminalResponseEvent (iterWebSocketResponseEvents m env) =
           (yielded (iterWebSocketResponseEvents m env) \<noteq> []
            \<and> isTerminalResponsesStreamEventType
                 (eventTypeOf (last (yielded (iterWebSocketResponseEvents m env)))))
       \<and> (sawTerminalResponseEvent (iterWebSocketResponseEvents m env) \<and> reuseConnection m
            \<longrightarrow> (\<exists>c. wsConnection (final (iterWebSocketResponseEvents m env)) = Some c
                      \<and> c \<notin> set (closeCalls (final (iterWebSocketResponseEvents m env)))))
       \<and> (\<not> (sawTerminalResponseEvent (iterWebSocketResponseEvents m env) \<and> reuseConnection m)
            \<longrightarrow> wsConnection (final (iterWebSocketResponseEvents m env)) = None
                \<and> wsConnectionIdentity (final (iterWebSocketResponseEvents m env)) = None
                \<and> (\<forall>c < opened (final (iterWebSocketResponseEvents m env)).
                      c \<in> set (closeCalls (final (iterWebSocketResponseEvents m env)))))"
proof -
  let ?m = "enqueued m" and ?t = "length (locks m)"
  let ?b = "tryBlock ?m env"
  have run: "iterWebSocketResponseEvents m env = runLocked ?m env ?t"
    using assms(2) by (rule iter_acquired)
  have inv: "cacheInv (final ?b)" using assms(1) by (intro tryBlock_cacheInv) simp
  have nw: "outcome ?b \<noteq> WaitsForFrame"
    using assms(3) by (simp add: run runLocked_WaitsForFrame)
  show ?thesis
  proof (rule runLocked_cases[of ?m env ?t])
    assume "outcome ?b = WaitsForFrame"
    then show ?thesis using nw by simp
  next
    assume saw: "sawTerminalResponseEvent ?b" and reuse: "reuseConnection ?m"
      and eq: "runLocked ?m env ?t =
         ?b\<lparr> outcome := (case outcome ?b of
                             Threw e \<Rightarrow> Threw (catchBlock (receivedAnyEvent ?b) e)
                           | out \<Rightarrow> out),
             final := releaseLock ?t (final ?b) \<rparr>"
    obtain c where c: "wsConnection (final ?b) = Some c"
      using tryBlock_saw_cached[OF saw] by blast
    have "c \<notin> set (closeCalls (final ?b))" using inv c by (rule cacheInv_cached_open)
    then show ?thesis using saw reuse c tryBlock_saw[of ?m env] by (simp add: run eq)
  next
    assume ns: "\<not> (sawTerminalResponseEvent ?b \<and> reuseConnection ?m)"
      and eq: "runLocked ?m env ?t =
         ?b\<lparr> outcome := (case outcome ?b of
                             Threw e \<Rightarrow> Threw (catchBlock (receivedAnyEvent ?b) e)
                           | out \<Rightarrow> out),
             final := releaseLock ?t (dropWebSocketConnection (final ?b)) \<rparr>"
    have dinv: "cacheInv (dropWebSocketConnection (final ?b))" using inv by (rule cacheInv_drop)
    have "\<forall>c < opened (dropWebSocketConnection (final ?b)).
            c \<in> set (closeCalls (dropWebSocketConnection (final ?b)))"
      using cacheInv_dropped_all_closed[OF dinv] by simp
    then show ?thesis using ns tryBlock_saw[of ?m env] by (simp add: run eq)
  qed
qed

theorem connection_kept_iff_terminal_and_reuse_witness:
  "cacheInv (newModel True) \<and> acquiresLock (newModel True) completedRunEnv
   \<and> outcome (iterWebSocketResponseEvents (newModel True) completedRunEnv) = Completed
   \<and> (\<exists>c. wsConnection (final (iterWebSocketResponseEvents (newModel True) completedRunEnv)) = Some c
          \<and> c \<notin> set (closeCalls (final (iterWebSocketResponseEvents (newModel True) completedRunEnv))))"
proof -
  have h1: "cacheInv (newModel True)" by (simp add: run_defs)
  have h2: "acquiresLock (newModel True) completedRunEnv" by (simp add: run_defs)
  have o: "outcome (iterWebSocketResponseEvents (newModel True) completedRunEnv) = Completed"
    by (simp add: run_defs Let_def)
  then have h3: "outcome (iterWebSocketResponseEvents (newModel True) completedRunEnv) \<noteq> WaitsForFrame"
    by simp
  have s: "sawTerminalResponseEvent (iterWebSocketResponseEvents (newModel True) completedRunEnv)"
    by (simp add: run_defs Let_def)
  have r: "reuseConnection (newModel True)" by (simp add: newModel_def)
  from connection_kept_iff_terminal_and_reuse[OF h1 h2 h3] s r h1 h2 o show ?thesis by blast
qed

text \<open>
  The claim as worded fails for a \<^verbatim>\<open>response.failed\<close> terminal event: with reuse enabled the
  request completes and the connection stays cached, with no \<^verbatim>\<open>close()\<close> call.
\<close>

theorem failed_terminal_keeps_connection_counterexample:
  "outcome (iterWebSocketResponseEvents (newModel True) failedRunEnv) = Completed
   \<and> yielded (iterWebSocketResponseEvents (newModel True) failedRunEnv) = [createdEvent, failedEvent]
   \<and> eventTypeOf failedEvent = Some ''response.failed''
   \<and> wsConnection (final (iterWebSocketResponseEvents (newModel True) failedRunEnv)) = Some 0
   \<and> closeCalls (final (iterWebSocketResponseEvents (newModel True) failedRunEnv)) = []"
  by (simp add: run_defs Let_def)

lemma mayHaveBeenAccepted_not_wrapper:
  "mayHaveBeenAcceptedError \<noteq> featureNotEnabledError e"
  by (simp add: mayHaveBeenAcceptedError_def featureNotEnabledError_def newError_def)

text \<open>
  C2. A request that holds the lock, finds a cached connection of its identity reusable,
  sends its frame on it, and whose first frame read gives the no-more-frames sentinel,
  fails with the "may have been accepted" error, which is not the no-event wrapper; the
  one send call of the request is the one on the reused connection, and nothing is
  reconnected or opened.
\<close>

theorem no_replay_after_post_send_close:
  assumes "acquiresLock m env"
      and "\<not> abortedAt env 2" and "\<not> abortedAt env 3" and "\<not> abortedAt env 4"
      and "prepared env = Inr i"
      and "wsConnection m = Some c" and "wsConnectionIdentity m = Some i" and "cachedReusable env"
      and "send1 env = None"
      and "frames env = NoMoreFrames # fs"
  shows "outcome (iterWebSocketResponseEvents m env) = Threw mayHaveBeenAcceptedError
       \<and> (\<forall>e. outcome (iterWebSocketResponseEvents m env) \<noteq> Threw (featureNotEnabledError e))
       \<and> sendCalls (final (iterWebSocketResponseEvents m env)) = sendCalls m @ [(c, True)]
       \<and> reconnects (final (iterWebSocketResponseEvents m env)) = reconnects m
       \<and> opened (final (iterWebSocketResponseEvents m env)) = opened m"
proof -
  let ?m = "enqueued m"
  have run: "iterWebSocketResponseEvents m env = runLocked ?m env (length (locks m))"
    using assms(1) by (rule iter_acquired)
  have en: "ensureWebSocketConnection ?m i (cachedReusable env) (connect1 env) = (Inr (c, True), ?m)"
    using assms(6,7,8) by (simp add: ensureWebSocketConnection_def)
  have sd: "sendSerializedFrame ?m i env (c, True) = (Inr (c, True), recordSend c None ?m)"
    using assms(9) by (simp add: sendSerializedFrame_def Let_def)
  have tb: "tryBlock ?m env =
              bodyResult (Threw mayHaveBeenAcceptedError) True False [] (recordSend c None ?m)"
    using assms(2-5,10) by (simp add: tryBlock_def en sd)
  have cb: "catchBlock True mayHaveBeenAcceptedError = mayHaveBeenAcceptedError"
    by (simp add: catchBlock_def)
  have out: "outcome (iterWebSocketResponseEvents m env) = Threw mayHaveBeenAcceptedError"
    by (simp add: run runLocked_def tb cb Let_def)
  have log: "sendCalls (final (iterWebSocketResponseEvents m env)) = sendCalls m @ [(c, True)]"
       "reconnects (final (iterWebSocketResponseEvents m env)) = reconnects m"
       "opened (final (iterWebSocketResponseEvents m env)) = opened m"
    by (simp_all add: run runLocked_def tb Let_def recordSend_def)
  show ?thesis using out log mayHaveBeenAccepted_not_wrapper by simp
qed

theorem no_replay_after_post_send_close_witness:
  "acquiresLock warmModel closedAfterSendEnv
   \<and> wsConnection warmModel = Some 0 \<and> cachedReusable closedAfterSendEnv
   \<and> send1 closedAfterSendEnv = None \<and> frames closedAfterSendEnv = [NoMoreFrames]
   \<and> outcome (iterWebSocketResponseEvents warmModel closedAfterSendEnv)
        = Threw mayHaveBeenAcceptedError
   \<and> sendCalls (final (iterWebSocketResponseEvents warmModel closedAfterSendEnv))
        = [(0, True), (0, True)]
   \<and> reconnects (final (iterWebSocketResponseEvents warmModel closedAfterSendEnv)) = 0"
proof -
  have h: "acquiresLock warmModel closedAfterSendEnv"
    "\<not> abortedAt closedAfterSendEnv 2" "\<not> abortedAt closedAfterSendEnv 3"
    "\<not> abortedAt closedAfterSendEnv 4"
    "prepared closedAfterSendEnv = Inr ''wss://api.openai.com/v1/responses''"
    "wsConnection warmModel = Some 0"
    "wsConnectionIdentity warmModel = Some ''wss://api.openai.com/v1/responses''"
    "cachedReusable closedAfterSendEnv" "send1 closedAfterSendEnv = None"
    "frames closedAfterSendEnv = NoMoreFrames # []"
    by (simp_all add: run_defs)
  have w: "sendCalls warmModel = [(0, True)]" "reconnects warmModel = 0"
    by (simp_all add: warmModel_def)
  from no_replay_after_post_send_close[OF h] h w show ?thesis by simp
qed

lemma readLoop_not_WaitsForLock:
  "fst (readLoop sf reused stop fs received ys) \<noteq> WaitsForLock"
  by (induction sf reused stop fs received ys rule: readLoop.induct) auto

lemma tryBlock_not_WaitsForLock: "outcome (tryBlock m env) \<noteq> WaitsForLock"
proof (rule tryBlock_cases[of m env])
  fix i conn m1 active out received saw ys
  assume rl: "readLoop (jsonStringify env) (snd active) (consumerStopsAfter env) (frames env) False []
         = (out, received, saw, ys)"
    and tb: "tryBlock m env = bodyResult out received saw ys (snd (sendSerializedFrame m1 i env conn))"
  have "out \<noteq> WaitsForLock"
    using readLoop_not_WaitsForLock[of "jsonStringify env" "snd active" "consumerStopsAfter env"
            "frames env" False "[]"] rl by simp
  then show ?thesis by (simp add: tb)
qed auto

lemma runLocked_outcome:
  "outcome (runLocked m env t) =
     (case outcome (tryBlock m env) of
        Threw e \<Rightarrow> Threw (catchBlock (receivedAnyEvent (tryBlock m env)) e)
      | out \<Rightarrow> out)"
  by (rule runLocked_cases[of m env t]) (auto split: outcome.splits)

lemma runLocked_not_WaitsForLock: "outcome (runLocked m env t) \<noteq> WaitsForLock"
  using tryBlock_not_WaitsForLock[of m env]
  by (simp add: runLocked_outcome split: outcome.splits)

lemma runLocked_log:
  "sendCalls (final (runLocked m env t)) = sendCalls (final (tryBlock m env))"
  "reconnects (final (runLocked m env t)) = reconnects (final (tryBlock m env))"
  by (rule runLocked_cases[of m env t]; simp)+

lemma runLocked_locks:
  assumes "outcome (runLocked m env t) \<noteq> WaitsForFrame"
  shows "locks (final (runLocked m env t)) = locks (releaseLock t m)"
    and "wsRequestLock (final (runLocked m env t)) = wsRequestLock m"
proof -
  have nw: "outcome (tryBlock m env) \<noteq> WaitsForFrame"
    using assms by (simp add: runLocked_WaitsForFrame)
  have l: "locks (releaseLock t x) = locks (releaseLock t m)" if "locks x = locks m" for x
    using that by (simp add: releaseLock_def)
  show "locks (final (runLocked m env t)) = locks (releaseLock t m)"
    by (rule runLocked_cases[of m env t]) (use nw in \<open>auto intro!: l simp: tryBlock_fields\<close>)
  show "wsRequestLock (final (runLocked m env t)) = wsRequestLock m"
    by (rule runLocked_cases[of m env t]) (use nw in \<open>auto simp: tryBlock_fields\<close>)
qed

lemma resumeRequest_locks:
  assumes "outcome (resumeRequest m env t prev) \<noteq> WaitsForLock"
      and "outcome (resumeRequest m env t prev) \<noteq> WaitsForFrame"
  shows "locks (final (resumeRequest m env t prev)) = locks (releaseLock t m)
       \<and> wsRequestLock (final (resumeRequest m env t prev)) = wsRequestLock m"
proof (cases "queueWait env")
  case (Some e)
  then show ?thesis by (simp add: resumeRequest_def)
next
  case None
  show ?thesis
  proof (cases "lockResolved m prev")
    case False
    then show ?thesis using assms(1) None by (simp add: resumeRequest_def)
  next
    case True
    show ?thesis
    proof (cases "abortedAt env 1")
      case True
      then show ?thesis using None \<open>lockResolved m prev\<close> by (simp add: resumeRequest_def)
    next
      case False
      then have eq: "resumeRequest m env t prev = runLocked m env t"
        using None True by (simp add: resumeRequest_def)
      show ?thesis using runLocked_locks[of m env t] assms(2) by (simp add: eq)
    qed
  qed
qed

lemma resumeRequest_proceeds:
  "queueWait env = None \<Longrightarrow> lockResolved m prev \<Longrightarrow>
   outcome (resumeRequest m env t prev) \<noteq> WaitsForLock"
  using runLocked_not_WaitsForLock[of m env t] by (simp add: resumeRequest_def)

text \<open>
  C5. Request A joins the chain and request B queues behind it. However A ends (rejected
  while waiting, aborted, failed, completed, or left early by its consumer), its own lock
  has been resolved exactly once and no other lock was touched, calling its release
  callback again changes nothing, and B does not wait for the lock once the requests
  before A have released theirs. A request stopped before it joins the chain leaves the
  model as it was.
\<close>

theorem lock_released_exactly_once:
  assumes "enqueueRequest m envA = Inr (tA, prevA, m1)"
      and "enqueueRequest m1 envB = Inr (tB, prevB, m2)"
      and "outcome (resumeRequest m2 envA tA prevA) \<noteq> WaitsForLock"
      and "outcome (resumeRequest m2 envA tA prevA) \<noteq> WaitsForFrame"
  shows "locks (final (resumeRequest m2 envA tA prevA)) =
           (locks m2)[tA := \<lparr> released = True, resolveCalls = 1 \<rparr>]
       \<and> wsRequestLock (final (resumeRequest m2 envA tA prevA)) = wsRequestLock m @ [tA, tB]
       \<and> releaseLock tA (final (resumeRequest m2 envA tA prevA))
           = final (resumeRequest m2 envA tA prevA)
       \<and> (lockResolved m2 prevA \<and> queueWait envB = None
            \<longrightarrow> outcome (resumeRequest (final (resumeRequest m2 envA tA prevA)) envB tB prevB)
                  \<noteq> WaitsForLock)
       \<and> (\<forall>env e. enqueueRequest m env = Inl e
            \<longrightarrow> iterWebSocketResponseEvents m env = bodyResult (Threw e) False False [] m)"
proof -
  let ?rA = "resumeRequest m2 envA tA prevA"
  have A: "tA = length (locks m)" "prevA = wsRequestLock m" "m1 = enqueued m"
    using assms(1) by (auto simp: enqueueRequest_eq split: if_splits)
  have B: "tB = length (locks m) + 1" "prevB = wsRequestLock m @ [tA]" "m2 = enqueued (enqueued m)"
    using assms(2) A by (auto simp: enqueueRequest_eq split: if_splits)
  have l2: "locks m2 = locks m @ [\<lparr>released = False, resolveCalls = 0\<rparr>,
                                   \<lparr>released = False, resolveCalls = 0\<rparr>]"
    by (simp add: B)
  have at: "tA < length (locks m2)" "locks m2 ! tA = \<lparr>released = False, resolveCalls = 0\<rparr>"
    by (simp_all add: l2 A nth_append)
  have rel: "locks (releaseLock tA m2) = (locks m2)[tA := \<lparr> released = True, resolveCalls = 1 \<rparr>]"
    using at by (simp add: releaseLock_def)
  have fin: "locks (final ?rA) = locks (releaseLock tA m2)"
            "wsRequestLock (final ?rA) = wsRequestLock m2"
    using resumeRequest_locks[OF assms(3,4)] by simp_all
  have 1: "locks (final ?rA) = (locks m2)[tA := \<lparr> released = True, resolveCalls = 1 \<rparr>]"
    by (simp add: fin rel)
  have "wsRequestLock m2 = wsRequestLock m @ [tA, tB]"
    by (simp add: B A)
  then have 2: "wsRequestLock (final ?rA) = wsRequestLock m @ [tA, tB]"
    by (simp only: fin(2))
  have 3: "releaseLock tA (final ?rA) = final ?rA"
    using at by (simp add: releaseLock_def 1)
  have 4: "outcome (resumeRequest (final ?rA) envB tB prevB) \<noteq> WaitsForLock"
    if "lockResolved m2 prevA" "queueWait envB = None"
  proof -
    have "lockResolved (final ?rA) prevA"
      using that(1) at by (auto simp: lockResolved_def list_all_iff 1 nth_list_update)
    moreover have "lockResolved (final ?rA) [tA]"
      using at by (simp add: lockResolved_def 1)
    ultimately have "lockResolved (final ?rA) (prevA @ [tA])"
      by (simp add: lockResolved_def)
    then have "lockResolved (final ?rA) prevB"
      by (simp only: B(2) A(2))
    from resumeRequest_proceeds[OF that(2) this] show ?thesis .
  qed
  have 5: "iterWebSocketResponseEvents m env = bodyResult (Threw e) False False [] m"
    if "enqueueRequest m env = Inl e" for env e
    using that by (simp add: iterWebSocketResponseEvents_def)
  show ?thesis using 1 2 3 4 5 by blast
qed

theorem lock_released_exactly_once_witness:
  "enqueueRequest (newModel True) frameTimeoutEnv = Inr (0, [], enqueued (newModel True))
   \<and> enqueueRequest (enqueued (newModel True)) completedRunEnv
        = Inr (1, [0], enqueued (enqueued (newModel True)))
   \<and> outcome (resumeRequest (enqueued (enqueued (newModel True))) frameTimeoutEnv 0 [])
        = Threw (newError ''Responses websocket frame read timed out after 600000ms.'')
   \<and> locks (final (resumeRequest (enqueued (enqueued (newModel True))) frameTimeoutEnv 0 []))
        = [\<lparr> released = True, resolveCalls = 1 \<rparr>, \<lparr> released = False, resolveCalls = 0 \<rparr>]
   \<and> outcome (resumeRequest
                 (final (resumeRequest (enqueued (enqueued (newModel True))) frameTimeoutEnv 0 []))
                 completedRunEnv 1 [0]) \<noteq> WaitsForLock"
proof -
  let ?m2 = "enqueued (enqueued (newModel True))"
  have e1: "enqueueRequest (newModel True) frameTimeoutEnv = Inr (0, [], enqueued (newModel True))"
    by (simp add: run_defs Let_def)
  have e2: "enqueueRequest (enqueued (newModel True)) completedRunEnv = Inr (1, [0], ?m2)"
    by (simp add: run_defs Let_def)
  have o: "outcome (resumeRequest ?m2 frameTimeoutEnv 0 [])
             = Threw (newError ''Responses websocket frame read timed out after 600000ms.'')"
    by (simp add: run_defs Let_def)
  have n1: "outcome (resumeRequest ?m2 frameTimeoutEnv 0 []) \<noteq> WaitsForLock"
    and n2: "outcome (resumeRequest ?m2 frameTimeoutEnv 0 []) \<noteq> WaitsForFrame"
    by (simp_all add: o)
  have l: "locks ?m2 = [\<lparr> released = False, resolveCalls = 0 \<rparr>, \<lparr> released = False, resolveCalls = 0 \<rparr>]"
    by (simp add: run_defs)
  have p: "lockResolved ?m2 [] \<and> queueWait completedRunEnv = None"
    by (simp add: run_defs)
  from lock_released_exactly_once[OF e1 e2 n1 n2] p
  have "locks (final (resumeRequest ?m2 frameTimeoutEnv 0 []))
          = (locks ?m2)[0 := \<lparr> released = True, resolveCalls = 1 \<rparr>]
      \<and> outcome (resumeRequest (final (resumeRequest ?m2 frameTimeoutEnv 0 [])) completedRunEnv 1 [0])
          \<noteq> WaitsForLock"
    by blast
  then show ?thesis using e1 e2 o by (simp add: newModel_def)
qed

lemma tryBlock_final_shape:
  "(sendCalls (final (tryBlock m env)) = sendCalls m
      \<and> reconnects (final (tryBlock m env)) = reconnects m)
   \<or> (\<exists>m1 i conn. sendCalls m1 = sendCalls m \<and> reconnects m1 = reconnects m
         \<and> final (tryBlock m env) = snd (sendSerializedFrame m1 i env conn))"
proof (rule tryBlock_cases[of m env])
  fix e assume "tryBlock m env = bodyResult (Threw e) False False [] m"
  then show ?thesis by simp
next
  fix i e
  assume "tryBlock m env = bodyResult (Threw e) False False []
         (snd (ensureWebSocketConnection m i (cachedReusable env) (connect1 env)))"
  then show ?thesis by (simp add: ensure_fields)
next
  fix i conn m1 e
  assume en: "ensureWebSocketConnection m i (cachedReusable env) (connect1 env) = (Inr conn, m1)"
    and tb: "tryBlock m env = bodyResult (Threw e) False False [] (snd (sendSerializedFrame m1 i env conn))"
  have "sendCalls m1 = sendCalls m \<and> reconnects m1 = reconnects m"
    using ensure_fields(4,5)[of m i "cachedReusable env" "connect1 env"] en by simp
  then show ?thesis using tb
    by (intro disjI2 exI[of _ m1] exI[of _ i] exI[of _ conn]) simp
next
  fix i conn m1 active out received saw ys
  assume en: "ensureWebSocketConnection m i (cachedReusable env) (connect1 env) = (Inr conn, m1)"
    and tb: "tryBlock m env = bodyResult out received saw ys (snd (sendSerializedFrame m1 i env conn))"
  have "sendCalls m1 = sendCalls m \<and> reconnects m1 = reconnects m"
    using ensure_fields(4,5)[of m i "cachedReusable env" "connect1 env"] en by simp
  then show ?thesis using tb
    by (intro disjI2 exI[of _ m1] exI[of _ i] exI[of _ conn]) simp
qed

lemma tryBlock_counts:
  "length (sendCalls (final (tryBlock m env))) \<le> length (sendCalls m) + 2"
  "reconnects (final (tryBlock m env)) \<le> reconnects m + 1"
  "reconnects (final (tryBlock m env)) = reconnects m + 1
     \<longrightarrow> (\<exists>e. send1 env = Some e \<and> isWebSocketNotOpenError e)"
  "length (sendCalls (final (tryBlock m env))) = length (sendCalls m) + 2
     \<longrightarrow> reconnects (final (tryBlock m env)) = reconnects m + 1"
proof -
  consider (same) "sendCalls (final (tryBlock m env)) = sendCalls m"
      "reconnects (final (tryBlock m env)) = reconnects m"
    | (sent) m1 i conn where "sendCalls m1 = sendCalls m" "reconnects m1 = reconnects m"
         "final (tryBlock m env) = snd (sendSerializedFrame m1 i env conn)"
    using tryBlock_final_shape[of m env] by blast
  then have "length (sendCalls (final (tryBlock m env))) \<le> length (sendCalls m) + 2
    \<and> reconnects (final (tryBlock m env)) \<le> reconnects m + 1
    \<and> (reconnects (final (tryBlock m env)) = reconnects m + 1
          \<longrightarrow> (\<exists>e. send1 env = Some e \<and> isWebSocketNotOpenError e))
    \<and> (length (sendCalls (final (tryBlock m env))) = length (sendCalls m) + 2
          \<longrightarrow> reconnects (final (tryBlock m env)) = reconnects m + 1)"
  proof cases
    case same
    then show ?thesis by simp
  next
    case (sent m1 i conn)
    show ?thesis
      using send_counts(1)[of m1 i env conn] send_counts(3)[of m1 i env conn]
            send_counts(4)[of m1 i env conn] send_counts(5)[of m1 i env conn]
      by (simp add: sent)
  qed
  then show
    "length (sendCalls (final (tryBlock m env))) \<le> length (sendCalls m) + 2"
    "reconnects (final (tryBlock m env)) \<le> reconnects m + 1"
    "reconnects (final (tryBlock m env)) = reconnects m + 1
       \<longrightarrow> (\<exists>e. send1 env = Some e \<and> isWebSocketNotOpenError e)"
    "length (sendCalls (final (tryBlock m env))) = length (sendCalls m) + 2
       \<longrightarrow> reconnects (final (tryBlock m env)) = reconnects m + 1"
    by blast+
qed

lemma iter_log:
  "(sendCalls (final (iterWebSocketResponseEvents m env)) = sendCalls m
    \<and> reconnects (final (iterWebSocketResponseEvents m env)) = reconnects m)
   \<or> (sendCalls (final (iterWebSocketResponseEvents m env))
         = sendCalls (final (tryBlock (enqueued m) env))
       \<and> reconnects (final (iterWebSocketResponseEvents m env))
         = reconnects (final (tryBlock (enqueued m) env)))"
  by (simp add: iterWebSocketResponseEvents_def enqueueRequest_eq resumeRequest_def runLocked_log
           split: option.splits)

lemma reconnect_ok:
  assumes "\<not> abortedAt env 5" "connect2 env = None" "\<not> abortedAt env 6"
  shows "\<exists>n. fst (reconnectWebSocketConnection m i env) = Inr n"
  using assms
  by (auto simp: reconnectWebSocketConnection_def ensureWebSocketConnection_def Let_def)

lemma iter_counts:
  "length (sendCalls (final (iterWebSocketResponseEvents m env))) \<le> length (sendCalls m) + 2
   \<and> reconnects (final (iterWebSocketResponseEvents m env)) \<le> reconnects m + 1
   \<and> (reconnects (final (iterWebSocketResponseEvents m env)) = reconnects m + 1
        \<longrightarrow> (\<exists>e. send1 env = Some e \<and> isWebSocketNotOpenError e))
   \<and> (length (sendCalls (final (iterWebSocketResponseEvents m env))) = length (sendCalls m) + 2
        \<longrightarrow> reconnects (final (iterWebSocketResponseEvents m env)) = reconnects m + 1)"
proof -
  let ?r = "iterWebSocketResponseEvents m env" and ?b = "tryBlock (enqueued m) env"
  consider (same) "sendCalls (final ?r) = sendCalls m" "reconnects (final ?r) = reconnects m"
    | (ran) "sendCalls (final ?r) = sendCalls (final ?b)" "reconnects (final ?r) = reconnects (final ?b)"
    using iter_log[of m env] by blast
  then show ?thesis
  proof cases
    case same
    then show ?thesis by simp
  next
    case ran
    have c: "length (sendCalls (final ?b)) \<le> length (sendCalls m) + 2"
      "reconnects (final ?b) \<le> reconnects m + 1"
      "reconnects (final ?b) = reconnects m + 1
         \<longrightarrow> (\<exists>e. send1 env = Some e \<and> isWebSocketNotOpenError e)"
      "length (sendCalls (final ?b)) = length (sendCalls m) + 2
         \<longrightarrow> reconnects (final ?b) = reconnects m + 1"
      using tryBlock_counts[of "enqueued m" env] by simp_all
    show ?thesis unfolding ran using c by blast
  qed
qed

lemma tryBlock_at_send:
  assumes "\<not> abortedAt env 2" "\<not> abortedAt env 3" "\<not> abortedAt env 4"
      and "prepared env = Inr i" and "connect1 env = None"
  obtains conn m1 where
      "sendCalls m1 = sendCalls m" "reconnects m1 = reconnects m"
      "tryBlock m env =
         (case sendSerializedFrame m1 i env conn of
            (Inl e, m2) \<Rightarrow> bodyResult (Threw e) False False [] m2
          | (Inr active, m2) \<Rightarrow>
              (case readLoop (jsonStringify env) (snd active) (consumerStopsAfter env)
                      (frames env) False [] of
                 (out, received, saw, ys) \<Rightarrow> bodyResult out received saw ys m2))"
proof -
  let ?en = "ensureWebSocketConnection m i (cachedReusable env) (connect1 env)"
  obtain conn where c: "fst ?en = Inr conn"
    by (rule ensure_cases[of m i "cachedReusable env" "connect1 env"]) (use assms(5) in auto)
  then have en: "?en = (Inr conn, snd ?en)" by (cases ?en) simp
  have f: "sendCalls (snd ?en) = sendCalls m" "reconnects (snd ?en) = reconnects m"
    by (simp_all add: ensure_fields)
  have "tryBlock m env =
         (case sendSerializedFrame (snd ?en) i env conn of
            (Inl e, m2) \<Rightarrow> bodyResult (Threw e) False False [] m2
          | (Inr active, m2) \<Rightarrow>
              (case readLoop (jsonStringify env) (snd active) (consumerStopsAfter env)
                      (frames env) False [] of
                 (out, received, saw, ys) \<Rightarrow> bodyResult out received saw ys m2))"
    using assms(1-4) c by (cases ?en) (simp add: tryBlock_def)
  from that[OF f this] show ?thesis .
qed

lemma reachesSend_run:
  assumes "reachesSend m env"
  obtains i conn m1 where "prepared env = Inr i"
      "sendCalls m1 = sendCalls m" "reconnects m1 = reconnects m"
      "iterWebSocketResponseEvents m env = runLocked (enqueued m) env (length (locks m))"
      "tryBlock (enqueued m) env =
         (case sendSerializedFrame m1 i env conn of
            (Inl e, m2) \<Rightarrow> bodyResult (Threw e) False False [] m2
          | (Inr active, m2) \<Rightarrow>
              (case readLoop (jsonStringify env) (snd active) (consumerStopsAfter env)
                      (frames env) False [] of
                 (out, received, saw, ys) \<Rightarrow> bodyResult out received saw ys m2))"
proof -
  have acq: "acquiresLock m env" and ab: "\<not> abortedAt env 2" "\<not> abortedAt env 3" "\<not> abortedAt env 4"
    and c1: "connect1 env = None"
    using assms by (simp_all add: reachesSend_def)
  obtain i where i: "prepared env = Inr i"
    using assms by (cases "prepared env") (simp_all add: reachesSend_def)
  have run: "iterWebSocketResponseEvents m env = runLocked (enqueued m) env (length (locks m))"
    using acq by (rule iter_acquired)
  show ?thesis
  proof (rule tryBlock_at_send[OF ab i c1, of "enqueued m"])
    fix conn m1
    assume "sendCalls m1 = sendCalls (enqueued m)" "reconnects m1 = reconnects (enqueued m)"
      and tb: "tryBlock (enqueued m) env =
         (case sendSerializedFrame m1 i env conn of
            (Inl e, m2) \<Rightarrow> bodyResult (Threw e) False False [] m2
          | (Inr active, m2) \<Rightarrow>
              (case readLoop (jsonStringify env) (snd active) (consumerStopsAfter env)
                      (frames env) False [] of
                 (out, received, saw, ys) \<Rightarrow> bodyResult out received saw ys m2))"
    then have "sendCalls m1 = sendCalls m" "reconnects m1 = reconnects m" by simp_all
    from that[OF i this run tb] show ?thesis .
  qed
qed

lemma first_send_other_error:
  assumes "reachesSend m env" "send1 env = Some e" "\<not> isWebSocketNotOpenError e"
  shows "outcome (iterWebSocketResponseEvents m env) = Threw (catchBlock False e)
       \<and> length (sendCalls (final (iterWebSocketResponseEvents m env))) = length (sendCalls m) + 1
       \<and> reconnects (final (iterWebSocketResponseEvents m env)) = reconnects m"
proof (rule reachesSend_run[OF assms(1)])
  fix i conn m1
  assume m1: "sendCalls m1 = sendCalls m" "reconnects m1 = reconnects m"
    and run: "iterWebSocketResponseEvents m env = runLocked (enqueued m) env (length (locks m))"
    and tb: "tryBlock (enqueued m) env =
         (case sendSerializedFrame m1 i env conn of
            (Inl e, m2) \<Rightarrow> bodyResult (Threw e) False False [] m2
          | (Inr active, m2) \<Rightarrow>
              (case readLoop (jsonStringify env) (snd active) (consumerStopsAfter env)
                      (frames env) False [] of
                 (out, received, saw, ys) \<Rightarrow> bodyResult out received saw ys m2))"
  have sd: "sendSerializedFrame m1 i env conn = (Inl e, recordSend (fst conn) (Some e) m1)"
    using assms(2,3) by (simp add: sendSerializedFrame_def Let_def)
  have tb': "tryBlock (enqueued m) env
               = bodyResult (Threw e) False False [] (recordSend (fst conn) (Some e) m1)"
    unfolding tb sd by simp
  have "outcome (iterWebSocketResponseEvents m env) = Threw (catchBlock False e)"
    unfolding run runLocked_outcome tb' by simp
  moreover have "sendCalls (final (iterWebSocketResponseEvents m env)) = sendCalls m @ [(fst conn, False)]"
    unfolding run runLocked_log tb' by (simp add: m1)
  moreover have "reconnects (final (iterWebSocketResponseEvents m env)) = reconnects m"
    unfolding run runLocked_log tb' by (simp add: m1)
  ultimately show ?thesis by simp
qed

lemma first_send_not_open:
  assumes "reachesSend m env" "send1 env = Some e" "isWebSocketNotOpenError e"
  shows "reconnects (final (iterWebSocketResponseEvents m env)) = reconnects m + 1
       \<and> (\<not> abortedAt env 5 \<and> connect2 env = None \<and> \<not> abortedAt env 6
            \<longrightarrow> length (sendCalls (final (iterWebSocketResponseEvents m env)))
                  = length (sendCalls m) + 2
                \<and> (\<forall>e2. send2 env = Some e2
                      \<longrightarrow> outcome (iterWebSocketResponseEvents m env)
                            = Threw (catchBlock False e2)))"
proof (rule reachesSend_run[OF assms(1)])
  fix i conn m1
  assume m1: "sendCalls m1 = sendCalls m" "reconnects m1 = reconnects m"
    and run: "iterWebSocketResponseEvents m env = runLocked (enqueued m) env (length (locks m))"
    and tb: "tryBlock (enqueued m) env =
         (case sendSerializedFrame m1 i env conn of
            (Inl e, m2) \<Rightarrow> bodyResult (Threw e) False False [] m2
          | (Inr active, m2) \<Rightarrow>
              (case readLoop (jsonStringify env) (snd active) (consumerStopsAfter env)
                      (frames env) False [] of
                 (out, received, saw, ys) \<Rightarrow> bodyResult out received saw ys m2))"
  let ?sd = "sendSerializedFrame m1 i env conn"
  let ?rc = "reconnectWebSocketConnection (recordSend (fst conn) (Some e) m1) i env"
  have fin: "final (tryBlock (enqueued m) env) = snd ?sd"
  proof (cases ?sd)
    case (Pair r m2)
    show ?thesis
    proof (cases r)
      case (Inl e')
      then show ?thesis unfolding tb Pair by simp
    next
      case (Inr active)
      obtain out received saw ys where
        "readLoop (jsonStringify env) (snd active) (consumerStopsAfter env) (frames env) False []
           = (out, received, saw, ys)"
        by (metis prod_cases4)
      then show ?thesis unfolding tb Pair Inr by simp
    qed
  qed
  have rcn: "reconnects (final (iterWebSocketResponseEvents m env)) = reconnects m + 1"
    unfolding run runLocked_log fin
    using send_counts(4)[of m1 i env conn] assms(2,3) m1 by simp
  have rest: "length (sendCalls (final (iterWebSocketResponseEvents m env))) = length (sendCalls m) + 2
                \<and> (\<forall>e2. send2 env = Some e2
                      \<longrightarrow> outcome (iterWebSocketResponseEvents m env) = Threw (catchBlock False e2))"
    if ok: "\<not> abortedAt env 5" "connect2 env = None" "\<not> abortedAt env 6"
  proof -
    obtain n where n: "fst ?rc = Inr n" using reconnect_ok[OF ok] by blast
    obtain m2 where rc: "?rc = (Inr n, m2)" using n by (cases ?rc) simp
    have m2: "sendCalls m2 = sendCalls m @ [(fst conn, False)]"
      using reconnect_fields(4)[of "recordSend (fst conn) (Some e) m1" i env] rc m1 by simp
    have sd: "?sd = (case send2 env of
                       None \<Rightarrow> (Inr n, recordSend (fst n) (send2 env) m2)
                     | Some e2 \<Rightarrow> (Inl e2, recordSend (fst n) (send2 env) m2))"
      using assms(2,3) by (simp add: sendSerializedFrame_def Let_def rc)
    have snd_sd: "snd ?sd = recordSend (fst n) (send2 env) m2"
      unfolding sd by (simp split: option.splits)
    have len: "length (sendCalls (snd ?sd)) = length (sendCalls m) + 2"
      unfolding snd_sd by (simp add: m2)
    have out: "outcome (iterWebSocketResponseEvents m env) = Threw (catchBlock False e2)"
      if s2: "send2 env = Some e2" for e2
    proof -
      have "?sd = (Inl e2, recordSend (fst n) (send2 env) m2)"
        unfolding sd s2 by simp
      then have "tryBlock (enqueued m) env
              = bodyResult (Threw e2) False False [] (recordSend (fst n) (send2 env) m2)"
        unfolding tb by simp
      then show ?thesis unfolding run runLocked_outcome by simp
    qed
    have "length (sendCalls (final (iterWebSocketResponseEvents m env))) = length (sendCalls m) + 2"
      unfolding run runLocked_log fin using len .
    then show ?thesis using out by blast
  qed
  show ?thesis using rcn rest by blast
qed

lemma recordSend_sockets [simp]:
  "opened (recordSend c s m) = opened m"
  "closeCalls (recordSend c s m) = closeCalls m"
  "wsConnectionIdentity (recordSend c s m) = wsConnectionIdentity m"
  by (simp_all add: recordSend_def)

lemma reconnect_opens:
  assumes "\<not> abortedAt env 5" "connect2 env = None" "\<not> abortedAt env 6"
  shows "fst (reconnectWebSocketConnection m i env) = Inr (opened m, False)"
    "opened (snd (reconnectWebSocketConnection m i env)) = opened m + 1"
    "closeCalls (snd (reconnectWebSocketConnection m i env)) =
       closeCalls m @ (case wsConnection m of Some c \<Rightarrow> [c] | None \<Rightarrow> [])"
    "wsConnection (snd (reconnectWebSocketConnection m i env)) = Some (opened m)"
  using assms
  by (auto simp: reconnectWebSocketConnection_def ensureWebSocketConnection_def
        dropWebSocketConnection_def Let_def split: option.splits)

lemma send_not_open_sockets:
  assumes s: "send1 env = Some e" "isWebSocketNotOpenError e"
    and ok: "\<not> abortedAt env 5" "connect2 env = None" "\<not> abortedAt env 6"
    and c: "wsConnection m = Some (fst a)"
  shows "sendCalls (snd (sendSerializedFrame m i env a)) =
           sendCalls m @ [(fst a, False), (opened m, send2 env = None)]"
    "opened (snd (sendSerializedFrame m i env a)) = opened m + 1"
    "closeCalls (snd (sendSerializedFrame m i env a)) = closeCalls m @ [fst a]"
    "wsConnection (snd (sendSerializedFrame m i env a)) = Some (opened m)"
proof -
  let ?m1 = "recordSend (fst a) (Some e) m"
  let ?rc = "reconnectWebSocketConnection ?m1 i env"
  have r: "fst ?rc = Inr (opened m, False)" "opened (snd ?rc) = opened m + 1"
    "closeCalls (snd ?rc) = closeCalls m @ [fst a]" "wsConnection (snd ?rc) = Some (opened m)"
    "sendCalls (snd ?rc) = sendCalls m @ [(fst a, False)]"
    using reconnect_opens[OF ok, of ?m1 i] reconnect_fields(4)[of ?m1 i env] c by simp_all
  have sd: "snd (sendSerializedFrame m i env a) = recordSend (opened m) (send2 env) (snd ?rc)"
    using s r(1) by (cases ?rc) (simp add: sendSerializedFrame_def Let_def split: option.splits)
  show "sendCalls (snd (sendSerializedFrame m i env a)) =
           sendCalls m @ [(fst a, False), (opened m, send2 env = None)]"
    "opened (snd (sendSerializedFrame m i env a)) = opened m + 1"
    "closeCalls (snd (sendSerializedFrame m i env a)) = closeCalls m @ [fst a]"
    "wsConnection (snd (sendSerializedFrame m i env a)) = Some (opened m)"
    unfolding sd by (simp_all add: r)
qed

lemma ensure_sockets:
  assumes en: "ensureWebSocketConnection m i reusable co = (Inr conn, m1)"
  shows "wsConnection m1 = Some (fst conn)"
    "opened m \<le> opened m1"
    "\<exists>xs. closeCalls m1 = closeCalls m @ xs"
    "cacheInv m \<Longrightarrow> fst conn < opened m1 \<and> fst conn \<notin> set (closeCalls m1)"
    "wsConnection m = Some c0 \<Longrightarrow> wsConnectionIdentity m = Some i \<Longrightarrow> reusable
       \<Longrightarrow> conn = (c0, True) \<and> m1 = m"
proof -
  show c: "wsConnection m1 = Some (fst conn)"
    using ensure_cached[of m i reusable co "fst conn" "snd conn" m1] en by simp
  show "opened m \<le> opened m1"
    by (rule ensure_cases[of m i reusable co]) (use en in auto)
  show "\<exists>xs. closeCalls m1 = closeCalls m @ xs"
    by (rule ensure_cases[of m i reusable co]) (use en in \<open>auto simp: drop_closeCalls\<close>)
  show "fst conn < opened m1 \<and> fst conn \<notin> set (closeCalls m1)" if inv: "cacheInv m"
  proof -
    have "cacheInv m1" using ensure_cacheInv[OF inv, of i reusable co] en by simp
    then show ?thesis using c cacheInv_cached_open[of m1 "fst conn"]
      by (auto simp: cacheInv_def)
  qed
  show "conn = (c0, True) \<and> m1 = m"
    if "wsConnection m = Some c0" "wsConnectionIdentity m = Some i" reusable
    using that en by (simp add: ensureWebSocketConnection_def)
qed

lemma reachesSend_ensured:
  assumes "reachesSend m env"
  obtains i conn m1 where "prepared env = Inr i"
      "ensureWebSocketConnection (enqueued m) i (cachedReusable env) (connect1 env) = (Inr conn, m1)"
      "iterWebSocketResponseEvents m env = runLocked (enqueued m) env (length (locks m))"
      "tryBlock (enqueued m) env =
         (case sendSerializedFrame m1 i env conn of
            (Inl e, m2) \<Rightarrow> bodyResult (Threw e) False False [] m2
          | (Inr active, m2) \<Rightarrow>
              (case readLoop (jsonStringify env) (snd active) (consumerStopsAfter env)
                      (frames env) False [] of
                 (out, received, saw, ys) \<Rightarrow> bodyResult out received saw ys m2))"
proof -
  have acq: "acquiresLock m env" and ab: "\<not> abortedAt env 2" "\<not> abortedAt env 3" "\<not> abortedAt env 4"
    and c1: "connect1 env = None"
    using assms by (simp_all add: reachesSend_def)
  obtain i where i: "prepared env = Inr i"
    using assms by (cases "prepared env") (simp_all add: reachesSend_def)
  have run: "iterWebSocketResponseEvents m env = runLocked (enqueued m) env (length (locks m))"
    using acq by (rule iter_acquired)
  let ?en = "ensureWebSocketConnection (enqueued m) i (cachedReusable env) (connect1 env)"
  obtain conn where c: "fst ?en = Inr conn"
    by (rule ensure_cases[of "enqueued m" i "cachedReusable env" "connect1 env"]) (use c1 in auto)
  obtain m1 where en: "?en = (Inr conn, m1)" using c by (cases ?en) simp
  have "tryBlock (enqueued m) env =
         (case sendSerializedFrame m1 i env conn of
            (Inl e, m2) \<Rightarrow> bodyResult (Threw e) False False [] m2
          | (Inr active, m2) \<Rightarrow>
              (case readLoop (jsonStringify env) (snd active) (consumerStopsAfter env)
                      (frames env) False [] of
                 (out, received, saw, ys) \<Rightarrow> bodyResult out received saw ys m2))"
    using ab i en by (simp add: tryBlock_def)
  from that[OF i en run this] show ?thesis .
qed

lemma tryBlock_final_send:
  assumes "tryBlock m env =
         (case sendSerializedFrame m1 i env conn of
            (Inl e, m2) \<Rightarrow> bodyResult (Threw e) False False [] m2
          | (Inr active, m2) \<Rightarrow>
              (case readLoop (jsonStringify env) (snd active) (consumerStopsAfter env)
                      (frames env) False [] of
                 (out, received, saw, ys) \<Rightarrow> bodyResult out received saw ys m2))"
  shows "final (tryBlock m env) = snd (sendSerializedFrame m1 i env conn)"
proof (cases "sendSerializedFrame m1 i env conn")
  case (Pair r m2)
  show ?thesis
  proof (cases r)
    case (Inl e')
    then show ?thesis unfolding assms Pair by simp
  next
    case (Inr active)
    obtain out received saw ys where
      "readLoop (jsonStringify env) (snd active) (consumerStopsAfter env) (frames env) False []
         = (out, received, saw, ys)"
      by (metis prod_cases4)
    then show ?thesis unfolding assms Pair Inr by simp
  qed
qed

lemma runLocked_opened:
  "opened (final (runLocked m env t)) = opened (final (tryBlock m env))"
  by (rule runLocked_cases[of m env t]; simp)

lemma runLocked_closeCalls:
  "\<exists>xs. closeCalls (final (runLocked m env t)) = closeCalls (final (tryBlock m env)) @ xs"
proof (rule runLocked_cases[of m env t])
  assume "runLocked m env t = tryBlock m env"
  then show ?thesis by simp
next
  assume "runLocked m env t =
         (tryBlock m env)\<lparr> outcome := (case outcome (tryBlock m env) of
                             Threw e \<Rightarrow> Threw (catchBlock (receivedAnyEvent (tryBlock m env)) e)
                           | out \<Rightarrow> out),
                           final := releaseLock t (final (tryBlock m env)) \<rparr>"
  then show ?thesis by simp
next
  assume "runLocked m env t =
         (tryBlock m env)\<lparr> outcome := (case outcome (tryBlock m env) of
                             Threw e \<Rightarrow> Threw (catchBlock (receivedAnyEvent (tryBlock m env)) e)
                           | out \<Rightarrow> out),
                           final := releaseLock t (dropWebSocketConnection (final (tryBlock m env))) \<rparr>"
  then show ?thesis by (simp add: drop_closeCalls)
qed

lemma runLocked_kept:
  assumes "sawTerminalResponseEvent (runLocked m env t)" "reuseConnection m"
  shows "wsConnection (final (runLocked m env t)) = wsConnection (final (tryBlock m env))"
proof (rule runLocked_cases[of m env t])
  assume "runLocked m env t = tryBlock m env"
  then show ?thesis by simp
next
  assume "runLocked m env t =
         (tryBlock m env)\<lparr> outcome := (case outcome (tryBlock m env) of
                             Threw e \<Rightarrow> Threw (catchBlock (receivedAnyEvent (tryBlock m env)) e)
                           | out \<Rightarrow> out),
                           final := releaseLock t (final (tryBlock m env)) \<rparr>"
  then show ?thesis by simp
next
  assume n: "\<not> (sawTerminalResponseEvent (tryBlock m env) \<and> reuseConnection m)"
    and eq: "runLocked m env t =
         (tryBlock m env)\<lparr> outcome := (case outcome (tryBlock m env) of
                             Threw e \<Rightarrow> Threw (catchBlock (receivedAnyEvent (tryBlock m env)) e)
                           | out \<Rightarrow> out),
                           final := releaseLock t (dropWebSocketConnection (final (tryBlock m env))) \<rparr>"
  have "sawTerminalResponseEvent (runLocked m env t) = sawTerminalResponseEvent (tryBlock m env)"
    by (subst eq) simp
  then show ?thesis using assms n by simp
qed

lemma first_send_not_open_sockets:
  assumes rs: "reachesSend m env" and s: "send1 env = Some e" "isWebSocketNotOpenError e"
    and ok: "\<not> abortedAt env 5" "connect2 env = None" "\<not> abortedAt env 6"
  shows "\<exists>c n. sendCalls (final (iterWebSocketResponseEvents m env))
                 = sendCalls m @ [(c, False), (n, send2 env = None)]
           \<and> opened m \<le> n
           \<and> opened (final (iterWebSocketResponseEvents m env)) = n + 1
           \<and> c \<in> set (closeCalls (final (iterWebSocketResponseEvents m env)))
           \<and> (cacheInv m \<longrightarrow> c < n \<and> c \<notin> set (closeCalls m))
           \<and> (\<forall>c0 i. wsConnection m = Some c0 \<and> prepared env = Inr i
                  \<and> wsConnectionIdentity m = Some i \<and> cachedReusable env
                \<longrightarrow> c = c0 \<and> n = opened m)
           \<and> (sawTerminalResponseEvent (iterWebSocketResponseEvents m env) \<and> reuseConnection m
                \<longrightarrow> wsConnection (final (iterWebSocketResponseEvents m env)) = Some n)"
proof (rule reachesSend_ensured[OF rs])
  fix i conn m1
  assume i: "prepared env = Inr i"
    and en: "ensureWebSocketConnection (enqueued m) i (cachedReusable env) (connect1 env) = (Inr conn, m1)"
    and run: "iterWebSocketResponseEvents m env = runLocked (enqueued m) env (length (locks m))"
    and tb: "tryBlock (enqueued m) env =
         (case sendSerializedFrame m1 i env conn of
            (Inl e, m2) \<Rightarrow> bodyResult (Threw e) False False [] m2
          | (Inr active, m2) \<Rightarrow>
              (case readLoop (jsonStringify env) (snd active) (consumerStopsAfter env)
                      (frames env) False [] of
                 (out, received, saw, ys) \<Rightarrow> bodyResult out received saw ys m2))"
  let ?r = "iterWebSocketResponseEvents m env"
  let ?sd = "sendSerializedFrame m1 i env conn"
  have fin: "final (tryBlock (enqueued m) env) = snd ?sd"
    using tb by (rule tryBlock_final_send)
  have c: "wsConnection m1 = Some (fst conn)" using ensure_sockets(1)[OF en] .
  have m1: "sendCalls m1 = sendCalls m"
    using ensure_fields(4)[of "enqueued m" i "cachedReusable env" "connect1 env"] en by simp
  have o1: "opened m \<le> opened m1" using ensure_sockets(2)[OF en] by simp
  obtain xs where xs: "closeCalls m1 = closeCalls m @ xs"
    using ensure_sockets(3)[OF en] by auto
  note sn = send_not_open_sockets[OF s ok c, of i]
  obtain ys where ys: "closeCalls (final ?r) = closeCalls (snd ?sd) @ ys"
    using runLocked_closeCalls[of "enqueued m" env "length (locks m)"] unfolding run fin by blast
  have 1: "sendCalls (final ?r) = sendCalls m @ [(fst conn, False), (opened m1, send2 env = None)]"
    unfolding run runLocked_log fin sn(1) by (simp add: m1)
  have 2: "opened (final ?r) = opened m1 + 1"
    unfolding run runLocked_opened fin sn(2) ..
  have 3: "fst conn \<in> set (closeCalls (final ?r))"
    unfolding ys sn(3) by simp
  have 4: "fst conn < opened m1 \<and> fst conn \<notin> set (closeCalls m)" if "cacheInv m"
    using ensure_sockets(4)[OF en] that xs by simp
  have 5: "fst conn = c0 \<and> opened m1 = opened m"
    if "wsConnection m = Some c0 \<and> prepared env = Inr i' \<and> wsConnectionIdentity m = Some i'
        \<and> cachedReusable env" for c0 i'
  proof -
    have "i' = i" using that i by simp
    then have "conn = (c0, True) \<and> m1 = enqueued m"
      using ensure_sockets(5)[OF en, of c0] that by simp
    then show ?thesis by simp
  qed
  have 6: "wsConnection (final ?r) = Some (opened m1)"
    if "sawTerminalResponseEvent ?r \<and> reuseConnection m"
  proof -
    have "sawTerminalResponseEvent (runLocked (enqueued m) env (length (locks m)))"
      "reuseConnection (enqueued m)"
      using that unfolding run by simp_all
    from runLocked_kept[OF this] show ?thesis unfolding run fin sn(4) .
  qed
  have A: "cacheInv m \<longrightarrow> fst conn < opened m1 \<and> fst conn \<notin> set (closeCalls m)"
    using 4 by blast
  have B: "\<forall>c0 i. wsConnection m = Some c0 \<and> prepared env = Inr i
                  \<and> wsConnectionIdentity m = Some i \<and> cachedReusable env
                \<longrightarrow> fst conn = c0 \<and> opened m1 = opened m"
    using 5 by blast
  have C: "sawTerminalResponseEvent ?r \<and> reuseConnection m
                \<longrightarrow> wsConnection (final ?r) = Some (opened m1)"
    using 6 by blast
  show ?thesis
    by (rule exI[of _ "fst conn"], rule exI[of _ "opened m1"]) (intro conjI 1 o1 2 3 A B C)
qed

lemma first_send_other_error_sockets:
  assumes rs: "reachesSend m env" and s: "send1 env = Some e" "\<not> isWebSocketNotOpenError e"
  shows "\<exists>c. sendCalls (final (iterWebSocketResponseEvents m env)) = sendCalls m @ [(c, False)]
           \<and> (\<forall>c0 i. wsConnection m = Some c0 \<and> prepared env = Inr i
                  \<and> wsConnectionIdentity m = Some i \<and> cachedReusable env
                \<longrightarrow> c = c0 \<and> opened (final (iterWebSocketResponseEvents m env)) = opened m)"
proof (rule reachesSend_ensured[OF rs])
  fix i conn m1
  assume i: "prepared env = Inr i"
    and en: "ensureWebSocketConnection (enqueued m) i (cachedReusable env) (connect1 env) = (Inr conn, m1)"
    and run: "iterWebSocketResponseEvents m env = runLocked (enqueued m) env (length (locks m))"
    and tb: "tryBlock (enqueued m) env =
         (case sendSerializedFrame m1 i env conn of
            (Inl e, m2) \<Rightarrow> bodyResult (Threw e) False False [] m2
          | (Inr active, m2) \<Rightarrow>
              (case readLoop (jsonStringify env) (snd active) (consumerStopsAfter env)
                      (frames env) False [] of
                 (out, received, saw, ys) \<Rightarrow> bodyResult out received saw ys m2))"
  let ?r = "iterWebSocketResponseEvents m env"
  have sd: "sendSerializedFrame m1 i env conn = (Inl e, recordSend (fst conn) (Some e) m1)"
    using s by (simp add: sendSerializedFrame_def Let_def)
  have fin: "final (tryBlock (enqueued m) env) = recordSend (fst conn) (Some e) m1"
    using tryBlock_final_send[OF tb] sd by simp
  have m1: "sendCalls m1 = sendCalls m"
    using ensure_fields(4)[of "enqueued m" i "cachedReusable env" "connect1 env"] en by simp
  have 1: "sendCalls (final ?r) = sendCalls m @ [(fst conn, False)]"
    unfolding run runLocked_log fin by (simp add: m1)
  have 2: "opened (final ?r) = opened m1"
    unfolding run runLocked_opened fin by simp
  have 5: "fst conn = c0 \<and> opened m1 = opened m"
    if "wsConnection m = Some c0 \<and> prepared env = Inr i' \<and> wsConnectionIdentity m = Some i'
        \<and> cachedReusable env" for c0 i'
  proof -
    have "i' = i" using that i by simp
    then have "conn = (c0, True) \<and> m1 = enqueued m"
      using ensure_sockets(5)[OF en, of c0] that by simp
    then show ?thesis by simp
  qed
  have B: "\<forall>c0 i. wsConnection m = Some c0 \<and> prepared env = Inr i
                  \<and> wsConnectionIdentity m = Some i \<and> cachedReusable env
                \<longrightarrow> fst conn = c0 \<and> opened (final ?r) = opened m"
    using 5 unfolding 2 by blast
  show ?thesis
    by (rule exI[of _ "fst conn"]) (intro conjI 1 B)
qed


lemma reconnect_fails:
  assumes "abortedAt env 5 \<or> connect2 env \<noteq> None \<or> abortedAt env 6"
  shows "\<exists>e'. fst (reconnectWebSocketConnection m i env) = Inl e'"
  using assms
  by (auto simp: reconnectWebSocketConnection_def ensureWebSocketConnection_def Let_def
           split: option.splits)

lemma first_send_not_open_no_reconnect:
  assumes rs: "reachesSend m env" and s: "send1 env = Some e" "isWebSocketNotOpenError e"
    and bad: "abortedAt env 5 \<or> connect2 env \<noteq> None \<or> abortedAt env 6"
  shows "length (sendCalls (final (iterWebSocketResponseEvents m env))) = length (sendCalls m) + 1"
proof (rule reachesSend_ensured[OF rs])
  fix i conn m1
  assume en: "ensureWebSocketConnection (enqueued m) i (cachedReusable env) (connect1 env) = (Inr conn, m1)"
    and run: "iterWebSocketResponseEvents m env = runLocked (enqueued m) env (length (locks m))"
    and tb: "tryBlock (enqueued m) env =
         (case sendSerializedFrame m1 i env conn of
            (Inl e, m2) \<Rightarrow> bodyResult (Threw e) False False [] m2
          | (Inr active, m2) \<Rightarrow>
              (case readLoop (jsonStringify env) (snd active) (consumerStopsAfter env)
                      (frames env) False [] of
                 (out, received, saw, ys) \<Rightarrow> bodyResult out received saw ys m2))"
  let ?rc = "reconnectWebSocketConnection (recordSend (fst conn) (Some e) m1) i env"
  obtain e' where e': "fst ?rc = Inl e'" using reconnect_fails[OF bad] by blast
  have sd: "snd (sendSerializedFrame m1 i env conn) = snd ?rc"
    using s e' by (cases ?rc) (simp add: sendSerializedFrame_def Let_def)
  have m1: "sendCalls m1 = sendCalls m"
    using ensure_fields(4)[of "enqueued m" i "cachedReusable env" "connect1 env"] en by simp
  have "sendCalls (final (iterWebSocketResponseEvents m env)) = sendCalls m @ [(fst conn, False)]"
    unfolding run runLocked_log tryBlock_final_send[OF tb] sd
    by (simp add: reconnect_fields(4) m1)
  then show ?thesis by simp
qed

text \<open>
  C3. No request makes more than two send calls or more than one reconnect, and it
  reconnects only after a first send that failed with a "not open" class of error. For a
  request that reaches its first send: a first failure of any other class goes to the
  caller after that one send, on the connection the request was given, with no reconnect
  and, when that connection was the cached one, no socket opened. A first "not open"
  failure is followed by one reconnect; when the reconnect fails there is no resend. When
  it succeeds, \<^verbatim>\<open>close()\<close> has been called on the socket of the failed send, one socket has
  been opened after it, and the log ends with the failed send on the old socket and one
  resend on the new one, whose failure goes to the caller with no third send; the new
  socket is the one that stays cached when the request ends with a terminal event and reuse
  is on. (\<open>catchBlock False\<close> is what the \<^verbatim>\<open>catch\<close> block throws on before any event was
  received; sockets are numbered in the order they are opened.)
\<close>

theorem single_reconnect_and_resend:
  "length (sendCalls (final (iterWebSocketResponseEvents m env))) \<le> length (sendCalls m) + 2
   \<and> reconnects (final (iterWebSocketResponseEvents m env)) \<le> reconnects m + 1
   \<and> (reconnects (final (iterWebSocketResponseEvents m env)) = reconnects m + 1
        \<longrightarrow> (\<exists>e. send1 env = Some e \<and> isWebSocketNotOpenError e))
   \<and> (length (sendCalls (final (iterWebSocketResponseEvents m env))) = length (sendCalls m) + 2
        \<longrightarrow> reconnects (final (iterWebSocketResponseEvents m env)) = reconnects m + 1)
   \<and> (reachesSend m env \<longrightarrow>
        (\<forall>e. send1 env = Some e \<and> \<not> isWebSocketNotOpenError e
           \<longrightarrow> outcome (iterWebSocketResponseEvents m env) = Threw (catchBlock False e)
               \<and> length (sendCalls (final (iterWebSocketResponseEvents m env)))
                   = length (sendCalls m) + 1
               \<and> reconnects (final (iterWebSocketResponseEvents m env)) = reconnects m
               \<and> (\<exists>c. sendCalls (final (iterWebSocketResponseEvents m env))
                         = sendCalls m @ [(c, False)]
                      \<and> (\<forall>c0 i. wsConnection m = Some c0 \<and> prepared env = Inr i
                             \<and> wsConnectionIdentity m = Some i \<and> cachedReusable env
                           \<longrightarrow> c = c0
                               \<and> opened (final (iterWebSocketResponseEvents m env)) = opened m)))
        \<and> (\<forall>e. send1 env = Some e \<and> isWebSocketNotOpenError e
           \<longrightarrow> reconnects (final (iterWebSocketResponseEvents m env)) = reconnects m + 1
               \<and> (abortedAt env 5 \<or> connect2 env \<noteq> None \<or> abortedAt env 6
                    \<longrightarrow> length (sendCalls (final (iterWebSocketResponseEvents m env)))
                          = length (sendCalls m) + 1)
               \<and> (\<not> abortedAt env 5 \<and> connect2 env = None \<and> \<not> abortedAt env 6
                    \<longrightarrow> length (sendCalls (final (iterWebSocketResponseEvents m env)))
                          = length (sendCalls m) + 2
                        \<and> (\<forall>e2. send2 env = Some e2
                             \<longrightarrow> outcome (iterWebSocketResponseEvents m env)
                                   = Threw (catchBlock False e2))
                        \<and> (\<exists>c n. sendCalls (final (iterWebSocketResponseEvents m env))
                                    = sendCalls m @ [(c, False), (n, send2 env = None)]
                              \<and> opened m \<le> n
                              \<and> opened (final (iterWebSocketResponseEvents m env)) = n + 1
                              \<and> c \<in> set (closeCalls (final (iterWebSocketResponseEvents m env)))
                              \<and> (cacheInv m \<longrightarrow> c < n \<and> c \<notin> set (closeCalls m))
                              \<and> (\<forall>c0 i. wsConnection m = Some c0 \<and> prepared env = Inr i
                                     \<and> wsConnectionIdentity m = Some i \<and> cachedReusable env
                                   \<longrightarrow> c = c0 \<and> n = opened m)
                              \<and> (sawTerminalResponseEvent (iterWebSocketResponseEvents m env)
                                    \<and> reuseConnection m
                                   \<longrightarrow> wsConnection (final (iterWebSocketResponseEvents m env))
                                         = Some n)))))"
proof (intro conjI impI allI)
  show "length (sendCalls (final (iterWebSocketResponseEvents m env))) \<le> length (sendCalls m) + 2"
    using iter_counts[of m env] by blast
  show "reconnects (final (iterWebSocketResponseEvents m env)) \<le> reconnects m + 1"
    using iter_counts[of m env] by blast
  show "\<exists>e. send1 env = Some e \<and> isWebSocketNotOpenError e"
    if "reconnects (final (iterWebSocketResponseEvents m env)) = reconnects m + 1"
    using iter_counts[of m env] that by blast
  show "reconnects (final (iterWebSocketResponseEvents m env)) = reconnects m + 1"
    if "length (sendCalls (final (iterWebSocketResponseEvents m env))) = length (sendCalls m) + 2"
    using iter_counts[of m env] that by blast
next
  fix e assume rs: "reachesSend m env" and s: "send1 env = Some e \<and> \<not> isWebSocketNotOpenError e"
  have o: "outcome (iterWebSocketResponseEvents m env) = Threw (catchBlock False e)
       \<and> length (sendCalls (final (iterWebSocketResponseEvents m env))) = length (sendCalls m) + 1
       \<and> reconnects (final (iterWebSocketResponseEvents m env)) = reconnects m"
    using first_send_other_error[OF rs] s by blast
  show "outcome (iterWebSocketResponseEvents m env) = Threw (catchBlock False e)"
    using o by blast
  show "length (sendCalls (final (iterWebSocketResponseEvents m env))) = length (sendCalls m) + 1"
    using o by blast
  show "reconnects (final (iterWebSocketResponseEvents m env)) = reconnects m"
    using o by blast
  show "\<exists>c. sendCalls (final (iterWebSocketResponseEvents m env)) = sendCalls m @ [(c, False)]
           \<and> (\<forall>c0 i. wsConnection m = Some c0 \<and> prepared env = Inr i
                  \<and> wsConnectionIdentity m = Some i \<and> cachedReusable env
                \<longrightarrow> c = c0 \<and> opened (final (iterWebSocketResponseEvents m env)) = opened m)"
    using first_send_other_error_sockets[OF rs conjunct1[OF s] conjunct2[OF s]] .
next
  fix e assume rs: "reachesSend m env" and s: "send1 env = Some e \<and> isWebSocketNotOpenError e"
  have n: "reconnects (final (iterWebSocketResponseEvents m env)) = reconnects m + 1
       \<and> (\<not> abortedAt env 5 \<and> connect2 env = None \<and> \<not> abortedAt env 6
            \<longrightarrow> length (sendCalls (final (iterWebSocketResponseEvents m env)))
                  = length (sendCalls m) + 2
                \<and> (\<forall>e2. send2 env = Some e2
                      \<longrightarrow> outcome (iterWebSocketResponseEvents m env)
                            = Threw (catchBlock False e2)))"
    using first_send_not_open[OF rs] s by blast
  show "reconnects (final (iterWebSocketResponseEvents m env)) = reconnects m + 1"
    using n by blast
  show "length (sendCalls (final (iterWebSocketResponseEvents m env))) = length (sendCalls m) + 1"
    if "abortedAt env 5 \<or> connect2 env \<noteq> None \<or> abortedAt env 6"
    using first_send_not_open_no_reconnect[OF rs conjunct1[OF s] conjunct2[OF s] that] .
  show "length (sendCalls (final (iterWebSocketResponseEvents m env))) = length (sendCalls m) + 2"
    if "\<not> abortedAt env 5 \<and> connect2 env = None \<and> \<not> abortedAt env 6"
    using n that by blast
  show "outcome (iterWebSocketResponseEvents m env) = Threw (catchBlock False e2)"
    if "\<not> abortedAt env 5 \<and> connect2 env = None \<and> \<not> abortedAt env 6" "send2 env = Some e2"
    for e2
    using n that by blast
  show "\<exists>c n. sendCalls (final (iterWebSocketResponseEvents m env))
                 = sendCalls m @ [(c, False), (n, send2 env = None)]
           \<and> opened m \<le> n
           \<and> opened (final (iterWebSocketResponseEvents m env)) = n + 1
           \<and> c \<in> set (closeCalls (final (iterWebSocketResponseEvents m env)))
           \<and> (cacheInv m \<longrightarrow> c < n \<and> c \<notin> set (closeCalls m))
           \<and> (\<forall>c0 i. wsConnection m = Some c0 \<and> prepared env = Inr i
                  \<and> wsConnectionIdentity m = Some i \<and> cachedReusable env
                \<longrightarrow> c = c0 \<and> n = opened m)
           \<and> (sawTerminalResponseEvent (iterWebSocketResponseEvents m env) \<and> reuseConnection m
                \<longrightarrow> wsConnection (final (iterWebSocketResponseEvents m env)) = Some n)"
    if "\<not> abortedAt env 5 \<and> connect2 env = None \<and> \<not> abortedAt env 6"
    using first_send_not_open_sockets[OF rs conjunct1[OF s] conjunct2[OF s]
            conjunct1[OF that] conjunct1[OF conjunct2[OF that]] conjunct2[OF conjunct2[OF that]]] .
qed

theorem single_reconnect_and_resend_witness:
  "reachesSend warmModel staleSocketEnv
   \<and> send1 staleSocketEnv = Some socketNotOpenError \<and> isWebSocketNotOpenError socketNotOpenError
   \<and> send2 staleSocketEnv = Some socketNotOpenError
   \<and> reconnects (final (iterWebSocketResponseEvents warmModel staleSocketEnv)) = 1
   \<and> length (sendCalls (final (iterWebSocketResponseEvents warmModel staleSocketEnv))) = 3
   \<and> outcome (iterWebSocketResponseEvents warmModel staleSocketEnv) = Threw socketNotOpenError
   \<and> sendCalls (final (iterWebSocketResponseEvents warmModel staleSocketEnv))
        = [(0, True), (0, False), (1, False)]
   \<and> opened (final (iterWebSocketResponseEvents warmModel staleSocketEnv)) = 2
   \<and> 0 \<in> set (closeCalls (final (iterWebSocketResponseEvents warmModel staleSocketEnv)))
   \<and> reachesSend warmModel resentRunEnv
   \<and> send1 resentRunEnv = Some socketNotOpenError \<and> send2 resentRunEnv = None
   \<and> sendCalls (final (iterWebSocketResponseEvents warmModel resentRunEnv))
        = [(0, True), (0, False), (1, True)]
   \<and> opened (final (iterWebSocketResponseEvents warmModel resentRunEnv)) = 2
   \<and> 0 \<in> set (closeCalls (final (iterWebSocketResponseEvents warmModel resentRunEnv)))
   \<and> wsConnection (final (iterWebSocketResponseEvents warmModel resentRunEnv)) = Some 1"
proof -
  have rs: "reachesSend warmModel staleSocketEnv" by (simp add: run_defs)
  have s1: "send1 staleSocketEnv = Some socketNotOpenError \<and> isWebSocketNotOpenError socketNotOpenError"
    by (simp add: run_defs)
  have ok: "\<not> abortedAt staleSocketEnv 5 \<and> connect2 staleSocketEnv = None
            \<and> \<not> abortedAt staleSocketEnv 6"
    by (simp add: run_defs)
  have s2: "send2 staleSocketEnv = Some socketNotOpenError" by (simp add: run_defs)
  have cb: "catchBlock False socketNotOpenError = socketNotOpenError"
    by (simp add: run_defs)
  have w: "length (sendCalls warmModel) = 1" "reconnects warmModel = 0"
    "sendCalls warmModel = [(0, True)]" "opened warmModel = 1"
    by (simp_all add: warmModel_def)
  have inv: "cacheInv warmModel" by (simp add: cacheInv_def warmModel_def)
  have reuse: "wsConnection warmModel = Some 0
     \<and> prepared staleSocketEnv = Inr ''wss://api.openai.com/v1/responses''
     \<and> wsConnectionIdentity warmModel = Some ''wss://api.openai.com/v1/responses''
     \<and> cachedReusable staleSocketEnv"
    by (simp add: run_defs)
  note t = single_reconnect_and_resend[of warmModel staleSocketEnv]
  from t rs s1 ok s2
  have a: "reconnects (final (iterWebSocketResponseEvents warmModel staleSocketEnv))
          = reconnects warmModel + 1
      \<and> length (sendCalls (final (iterWebSocketResponseEvents warmModel staleSocketEnv)))
          = length (sendCalls warmModel) + 2
      \<and> outcome (iterWebSocketResponseEvents warmModel staleSocketEnv)
          = Threw (catchBlock False socketNotOpenError)"
    by blast
  from t rs s1 ok obtain c n where
    b: "sendCalls (final (iterWebSocketResponseEvents warmModel staleSocketEnv))
          = sendCalls warmModel @ [(c, False), (n, send2 staleSocketEnv = None)]"
       "opened (final (iterWebSocketResponseEvents warmModel staleSocketEnv)) = n + 1"
       "c \<in> set (closeCalls (final (iterWebSocketResponseEvents warmModel staleSocketEnv)))"
       "\<forall>c0 i. wsConnection warmModel = Some c0 \<and> prepared staleSocketEnv = Inr i
            \<and> wsConnectionIdentity warmModel = Some i \<and> cachedReusable staleSocketEnv
          \<longrightarrow> c = c0 \<and> n = opened warmModel"
    by blast
  have cn: "c = 0" "n = 1" using b(4) reuse w(4) by auto
  have rs': "reachesSend warmModel resentRunEnv" by (simp add: run_defs)
  have s1': "send1 resentRunEnv = Some socketNotOpenError \<and> isWebSocketNotOpenError socketNotOpenError"
    by (simp add: run_defs)
  have ok': "\<not> abortedAt resentRunEnv 5 \<and> connect2 resentRunEnv = None
            \<and> \<not> abortedAt resentRunEnv 6"
    by (simp add: run_defs)
  have s2': "send2 resentRunEnv = None" by (simp add: run_defs)
  have reuse': "wsConnection warmModel = Some 0
     \<and> prepared resentRunEnv = Inr ''wss://api.openai.com/v1/responses''
     \<and> wsConnectionIdentity warmModel = Some ''wss://api.openai.com/v1/responses''
     \<and> cachedReusable resentRunEnv"
    by (simp add: run_defs)
  have saw: "sawTerminalResponseEvent (iterWebSocketResponseEvents warmModel resentRunEnv)
             \<and> reuseConnection warmModel"
    by (simp add: run_defs)
  note t' = single_reconnect_and_resend[of warmModel resentRunEnv]
  from t' rs' s1' ok' obtain c' n' where
    b': "sendCalls (final (iterWebSocketResponseEvents warmModel resentRunEnv))
          = sendCalls warmModel @ [(c', False), (n', send2 resentRunEnv = None)]"
       "opened (final (iterWebSocketResponseEvents warmModel resentRunEnv)) = n' + 1"
       "c' \<in> set (closeCalls (final (iterWebSocketResponseEvents warmModel resentRunEnv)))"
       "\<forall>c0 i. wsConnection warmModel = Some c0 \<and> prepared resentRunEnv = Inr i
            \<and> wsConnectionIdentity warmModel = Some i \<and> cachedReusable resentRunEnv
          \<longrightarrow> c' = c0 \<and> n' = opened warmModel"
       "sawTerminalResponseEvent (iterWebSocketResponseEvents warmModel resentRunEnv)
            \<and> reuseConnection warmModel
          \<longrightarrow> wsConnection (final (iterWebSocketResponseEvents warmModel resentRunEnv)) = Some n'"
    by blast
  have cn': "c' = 0" "n' = 1" using b'(4) reuse' w(4) by auto
  have 1: "reconnects (final (iterWebSocketResponseEvents warmModel staleSocketEnv)) = 1"
    "length (sendCalls (final (iterWebSocketResponseEvents warmModel staleSocketEnv))) = 3"
    "outcome (iterWebSocketResponseEvents warmModel staleSocketEnv) = Threw socketNotOpenError"
    using a by (simp_all add: cb w)
  have 2: "sendCalls (final (iterWebSocketResponseEvents warmModel staleSocketEnv))
        = [(0, True), (0, False), (1, False)]"
    "opened (final (iterWebSocketResponseEvents warmModel staleSocketEnv)) = 2"
    "0 \<in> set (closeCalls (final (iterWebSocketResponseEvents warmModel staleSocketEnv)))"
    using b(1-3) by (simp_all add: cn w s2)
  have 3: "sendCalls (final (iterWebSocketResponseEvents warmModel resentRunEnv))
        = [(0, True), (0, False), (1, True)]"
    "opened (final (iterWebSocketResponseEvents warmModel resentRunEnv)) = 2"
    "0 \<in> set (closeCalls (final (iterWebSocketResponseEvents warmModel resentRunEnv)))"
    "wsConnection (final (iterWebSocketResponseEvents warmModel resentRunEnv)) = Some 1"
    using b'(1-3) b'(5) saw by (simp_all add: cn' w s2')
  show ?thesis
    by (intro conjI rs s1[THEN conjunct1] s1[THEN conjunct2] s2 1 2 rs' s1'[THEN conjunct1] s2' 3)
qed



end
